theory Spec2Isabelle
  imports Complex_Main "HOL-Library.Sublist" "HOL-Library.AList" "HOL-Library.List_Lexorder"
    "HOL-Library.Char_ord"
begin

section \<open>Data model\<close>

text \<open>
  JavaScript numbers are modelled as reals (finite values only: NaN, the infinities and
  rounding are outside the model; where JavaScript would produce NaN by \<open>0 / 0\<close> the model
  has \<open>0\<close>). \<open>None\<close> stands for \<open>null\<close> and \<open>undefined\<close>. A JavaScript object used as a
  dictionary is an association list in insertion order: \<open>obj[k] = v\<close> and
  \<open>{...obj, [k]: v}\<close> are \<open>AList.update k v obj\<close>, which overwrites in place or appends, and
  \<open>obj[k]\<close> is \<open>map_of obj k\<close>. Strings are compared as JavaScript compares them, code
  unit by code unit.

  A cell is \<open>{_barcode: {unCell, _featureCounts}}\<close>; \<open>_featureCounts\<close> may be undefined
  until \<open>addFeaturesToCells\<close> has run.
\<close>

record barcode =
  unCell :: string
  featureCounts :: "(string \<times> real) list option"

record cell =
  barcode :: barcode

text \<open>One entry of an \<open>AttributeMap\<close>: \<open>{scaleKey, quantity}\<close>.\<close>

record attribute =
  scaleKey :: string
  quantity :: real

text \<open>
  The payload of a node (\<open>TMCFlatNode\<close>/\<open>TMCNode\<close>, the \<open>data\<close> of a d3 hierarchy node).
  The field \<open>id\<close> is named \<open>ident\<close> here.
\<close>

record tmcnode =
  ident :: string
  parentId :: "string option"
  items :: "cell list option"
  distance :: "real option"
  significance :: "real option"
  labelCount :: "(string \<times> nat) list"
  featureCount :: "(string \<times> attribute) list"

text \<open>
  What the modelled functions throw: the TypeError of reading a property of
  \<open>undefined\<close>, and the errors of d3's \<open>stratify\<close>.
\<close>

datatype error = TypeError | Missing string | Ambiguous string | MultipleRoots | NoRoot | Cycle

section \<open>d3-hierarchy as the program uses it\<close>

text \<open>
  A d3 \<open>HierarchyNode\<close>: the payload \<open>data\<close>, the cached \<open>value\<close> (named \<open>nvalue\<close>; every
  tree the program handles has been through \<open>node.sum\<close>, which sets it on every node)
  and the \<open>children\<close>. d3 never stores an empty \<open>children\<close> array (\<open>hierarchy\<close> and
  \<open>stratify\<close> leave the field undefined on a leaf), so \<open>[]\<close> stands for
  \<open>children === undefined\<close>. The fields \<open>parent\<close> and \<open>depth\<close> are positional: a node is
  addressed by its path from the root (the child indices), its \<open>depth\<close> is the length of
  the path and it has a \<open>parent\<close> iff the path is not empty. The type is polymorphic in
  the payload, so that the same tree functions serve trees that hold their payload
  inline and trees that hold the address of a payload object in a store.
\<close>

datatype 'd hnode = HNode (data: 'd) (nvalue: real) (children: "'d hnode list")

type_synonym path = "nat list"

fun nsize :: "'d hnode \<Rightarrow> nat" where
  "nsize (HNode d v cs) = Suc (sum_list (map nsize cs))"

fun subtrees :: "'d hnode \<Rightarrow> 'd hnode set" where
  "subtrees (HNode d v cs) = insert (HNode d v cs) (\<Union>c\<in>set cs. subtrees c)"

text \<open>
  \<open>node.copy()\<close> is \<open>hierarchy(this).eachBefore(copyData)\<close>: a new node for every node of
  the subtree, with the same \<open>data\<close> reference and the same \<open>value\<close>; the root of the copy
  has no parent and depth 0.
\<close>

fun copy :: "'d hnode \<Rightarrow> 'd hnode" where
  "copy (HNode d v cs) = HNode d v (map copy cs)"

text \<open>
  The node iterator of d3 (behind \<open>descendants\<close> and \<open>find\<close>) is breadth first: it yields
  the nodes of one level, then those of the next.
\<close>

function iterate :: "'d hnode list \<Rightarrow> 'd hnode list" where
  "iterate [] = []"
| "iterate (n # ns) = (n # ns) @ iterate (concat (map children (n # ns)))"
  by pat_completeness auto

lemma nsize_children_less:
  "ns \<noteq> [] \<Longrightarrow> sum_list (map nsize (concat (map children ns))) < sum_list (map nsize ns)"
proof (induction ns)
  case Nil
  then show ?case by simp
next
  case (Cons n ns)
  show ?case
  proof (cases ns)
    case Nil
    then show ?thesis by (cases n) simp
  next
    case (Cons m ms)
    with Cons.IH show ?thesis by (cases n) simp
  qed
qed

termination iterate
  by (relation "measure (\<lambda>ns. sum_list (map nsize ns))")
    (simp, metis in_measure list.distinct(1) nsize_children_less)

definition descendants :: "'d hnode \<Rightarrow> 'd hnode list" where
  "descendants t = iterate [t]"

definition find_node :: "('d hnode \<Rightarrow> bool) \<Rightarrow> 'd hnode \<Rightarrow> 'd hnode option" where
  "find_node P t = List.find P (descendants t)"

text \<open>\<open>node.leaves()\<close>: the nodes without children, in pre-order.\<close>

fun leaves :: "'d hnode \<Rightarrow> 'd hnode list" where
  "leaves (HNode d v cs) = (if cs = [] then [HNode d v cs] else concat (map leaves cs))"

subsection \<open>Traversals whose callback cuts children\<close>

text \<open>
  The callbacks that util.ts passes to \<open>eachBefore\<close> and \<open>eachAfter\<close> do one of three
  things to the tree they walk: nothing, \<open>d.children = undefined\<close>, or
  \<open>d.parent.children = undefined\<close> (always under the guard \<open>d.parent\<close>). Children are
  only ever cut, so the mutable state of the walked tree is the set of paths whose
  \<open>children\<close> field has been set to undefined; the node objects on d3's stack keep what
  they held when they were pushed.
\<close>

datatype action = Keep | ClearOwn | ClearParent

fun apply_action :: "action \<Rightarrow> path \<Rightarrow> path set \<Rightarrow> path set" where
  "apply_action Keep p cl = cl"
| "apply_action ClearOwn p cl = insert p cl"
| "apply_action ClearParent p cl = insert (butlast p) cl"

definition has_parent :: "path \<Rightarrow> bool" where
  "has_parent p = (p \<noteq> [])"

fun kids_from :: "nat \<Rightarrow> path \<Rightarrow> 'd hnode list \<Rightarrow> (path \<times> 'd hnode) list" where
  "kids_from i p [] = []"
| "kids_from i p (c # cs) = (p @ [i], c) # kids_from (Suc i) p cs"

text \<open>
  \<open>eachBefore\<close>: pop a node, run the callback, then read the node's \<open>children\<close> (after the
  callback) and push them so that the first child is on top. Nodes already pushed stay
  on the stack when their parent's \<open>children\<close> is cut.
\<close>

function eachBefore_loop ::
  "(path \<Rightarrow> 'd hnode \<Rightarrow> action) \<Rightarrow> (path \<times> 'd hnode) list \<Rightarrow> path set \<Rightarrow> path set" where
  "eachBefore_loop cb [] cl = cl"
| "eachBefore_loop cb ((p, n) # nodes) cl =
     (let cl' = apply_action (cb p n) p cl;
          chs = (if p \<in> cl' then [] else children n)
      in eachBefore_loop cb (kids_from 0 p chs @ nodes) cl')"
  by pat_completeness auto

lemma nsize_kids: "sum_list (map (nsize \<circ> snd) (kids_from i p cs)) = sum_list (map nsize cs)"
  by (induction cs arbitrary: i) simp_all

lemma nsize_children: "sum_list (map nsize (children n)) < nsize n"
  by (cases n) simp

lemma nsize_pos: "0 < nsize n"
  by (cases n) simp

termination eachBefore_loop
  by (relation "measure (\<lambda>(cb, nodes, cl). sum_list (map (nsize \<circ> snd) nodes))")
     (auto simp: nsize_kids nsize_children nsize_pos)

text \<open>The tree that is left: every node whose path was cut has no children.\<close>

fun detach :: "path set \<Rightarrow> path \<Rightarrow> 'd hnode \<Rightarrow> 'd hnode"
  and detach_list :: "path set \<Rightarrow> path \<Rightarrow> nat \<Rightarrow> 'd hnode list \<Rightarrow> 'd hnode list" where
  "detach cl p (HNode d v cs) = HNode d v (if p \<in> cl then [] else detach_list cl p 0 cs)"
| "detach_list cl p i [] = []"
| "detach_list cl p i (c # cs) = detach cl (p @ [i]) c # detach_list cl p (Suc i) cs"

definition eachBefore :: "(path \<Rightarrow> 'd hnode \<Rightarrow> action) \<Rightarrow> 'd hnode \<Rightarrow> 'd hnode" where
  "eachBefore cb t = detach (eachBefore_loop cb [([], t)] {}) [] t"

text \<open>
  \<open>eachAfter\<close>: d3 first collects every node of the tree (reading \<open>children\<close> before any
  callback runs) and then calls the callback on each of them in post-order.
\<close>

fun postorder :: "path \<Rightarrow> 'd hnode \<Rightarrow> (path \<times> 'd hnode) list"
  and postorder_list :: "path \<Rightarrow> nat \<Rightarrow> 'd hnode list \<Rightarrow> (path \<times> 'd hnode) list" where
  "postorder p (HNode d v cs) = postorder_list p 0 cs @ [(p, HNode d v cs)]"
| "postorder_list p i [] = []"
| "postorder_list p i (c # cs) = postorder (p @ [i]) c @ postorder_list p (Suc i) cs"

definition eachAfter :: "(path \<Rightarrow> 'd hnode \<Rightarrow> action) \<Rightarrow> 'd hnode \<Rightarrow> 'd hnode" where
  "eachAfter cb t = detach (fold (\<lambda>(p, n). apply_action (cb p n) p) (postorder [] t) {}) [] t"

subsection \<open>stratify, sort and sum\<close>

text \<open>
  \<open>stratify\<close> with the default accessors \<open>d.id\<close> and \<open>d.parentId\<close>: an empty or missing id
  or parent id counts as none. The second loop of d3 links every node to the node that
  holds its parent id and throws at the first node whose parent id nobody holds
  (\<open>missing\<close>) or several nodes hold (\<open>ambiguous\<close>), or that is a second root.
\<close>

definition node_key :: "tmcnode \<Rightarrow> string option" where
  "node_key d = (if ident d = [] then None else Some (ident d))"

definition parent_key :: "tmcnode \<Rightarrow> string option" where
  "parent_key d = (case parentId d of None \<Rightarrow> None | Some k \<Rightarrow> if k = [] then None else Some k)"

fun link_check :: "tmcnode list \<Rightarrow> tmcnode list \<Rightarrow> bool \<Rightarrow> error option" where
  "link_check nodes [] root_seen = None"
| "link_check nodes (d # ds) root_seen =
     (case parent_key d of
        Some k \<Rightarrow>
          (case filter (\<lambda>c. node_key c = Some k) nodes of
             [] \<Rightarrow> Some (Missing k)
           | [_] \<Rightarrow> link_check nodes ds root_seen
           | _ \<Rightarrow> Some (Ambiguous k))
      | None \<Rightarrow> if root_seen then Some MultipleRoots else link_check nodes ds True)"

text \<open>
  The children of a node are the flat nodes that name it as parent, in the order of the
  flat list. The tree below the root is built with the length of the list as fuel (a
  tree of \<open>n\<close> nodes is less than \<open>n\<close> deep); d3 reports a cycle when the tree reached
  from the root holds fewer nodes than the list.
\<close>

definition kids_of :: "tmcnode list \<Rightarrow> tmcnode \<Rightarrow> tmcnode list" where
  "kids_of nodes d =
     (case node_key d of None \<Rightarrow> [] | Some k \<Rightarrow> filter (\<lambda>c. parent_key c = Some k) nodes)"

fun build :: "nat \<Rightarrow> tmcnode list \<Rightarrow> tmcnode \<Rightarrow> tmcnode hnode option" where
  "build 0 nodes d = None"
| "build (Suc fuel) nodes d =
     map_option (HNode d 0) (those (map (build fuel nodes) (kids_of nodes d)))"

definition stratify :: "tmcnode list \<Rightarrow> error + tmcnode hnode" where
  "stratify nodes =
     (case link_check nodes nodes False of
        Some e \<Rightarrow> Inl e
      | None \<Rightarrow>
          (case List.find (\<lambda>d. parent_key d = None) nodes of
             None \<Rightarrow> Inl NoRoot
           | Some r \<Rightarrow>
               (case build (length nodes) nodes r of
                  None \<Rightarrow> Inl Cycle
                | Some t \<Rightarrow> if nsize t < length nodes then Inl Cycle else Inr t)))"

text \<open>
  \<open>Array.prototype.sort(compare)\<close>, taken as the insertion sort engines use on short
  arrays: each element in turn goes in front of the first element it compares below
  (\<open>compare(x, y) < 0\<close>), and behind everything else. For a comparator that never
  returns 0 ECMAScript leaves the order of ties to the engine; this reading keeps them
  in their original order.
\<close>

fun js_insert :: "('a \<Rightarrow> 'a \<Rightarrow> real) \<Rightarrow> 'a \<Rightarrow> 'a list \<Rightarrow> 'a list" where
  "js_insert cmp x [] = [x]"
| "js_insert cmp x (y # ys) = (if cmp x y < 0 then x # y # ys else y # js_insert cmp x ys)"

definition js_sort :: "('a \<Rightarrow> 'a \<Rightarrow> real) \<Rightarrow> 'a list \<Rightarrow> 'a list" where
  "js_sort cmp xs = fold (js_insert cmp) xs []"

lemma set_js_insert: "set (js_insert cmp x ys) = insert x (set ys)"
  by (induction ys) auto

lemma set_fold_js_insert: "set (fold (js_insert cmp) xs acc) = set xs \<union> set acc"
  by (induction xs arbitrary: acc) (auto simp: set_js_insert)

lemma set_js_sort: "set (js_sort cmp xs) = set xs"
  by (simp add: js_sort_def set_fold_js_insert)

lemma nsize_mem: "c \<in> set cs \<Longrightarrow> nsize c \<le> sum_list (map nsize cs)"
  by (induction cs) auto

text \<open>\<open>node.sort(compare)\<close>: in pre-order, sort the children of every node.\<close>

function sort_tree :: "('d hnode \<Rightarrow> 'd hnode \<Rightarrow> real) \<Rightarrow> 'd hnode \<Rightarrow> 'd hnode" where
  "sort_tree cmp (HNode d v cs) = HNode d v (map (sort_tree cmp) (js_sort cmp cs))"
  by pat_completeness auto

termination sort_tree
  by (relation "measure (\<lambda>(cmp, n). nsize n)") (auto simp: set_js_sort dest!: nsize_mem)

text \<open>
  \<open>node.sum(value)\<close>: in post-order, \<open>node.value\<close> becomes \<open>value(node.data)\<close> plus the
  values of the children.
\<close>

fun sum_tree :: "('d \<Rightarrow> real) \<Rightarrow> 'd hnode \<Rightarrow> 'd hnode" where
  "sum_tree f (HNode d v cs) =
     (let cs' = map (sum_tree f) cs in HNode d (f d + sum_list (map nvalue cs')) cs')"

section \<open>util.ts\<close>


definition pruneTreeByMinValue :: "'d hnode \<Rightarrow> real \<Rightarrow> 'd hnode" where
  "pruneTreeByMinValue tree minSize =
     eachBefore (\<lambda>p d. if nvalue d < minSize then (if has_parent p then ClearParent else Keep) else Keep)
       (copy tree)"

definition pruneTreeByDepth :: "'d hnode \<Rightarrow> real \<Rightarrow> 'd hnode" where
  "pruneTreeByDepth tree depth =
     eachAfter (\<lambda>p d. if real (length p) > depth \<and> has_parent p then ClearParent else Keep) (copy tree)"

text \<open>\<open>!d.data.distance || d.data.distance < distance\<close>: a missing or zero distance is falsy.\<close>

fun below_distance :: "real option \<Rightarrow> real \<Rightarrow> bool" where
  "below_distance None t = True"
| "below_distance (Some x) t = (x = 0 \<or> x < t)"

definition pruneTreeByMinDistance :: "tmcnode hnode \<Rightarrow> real \<Rightarrow> tmcnode hnode" where
  "pruneTreeByMinDistance tree dst =
     eachBefore (\<lambda>p d. if below_distance (distance (data d)) dst then ClearOwn else Keep) (copy tree)"

definition pruneTreeByMinDistanceSearch :: "tmcnode hnode \<Rightarrow> real \<Rightarrow> tmcnode hnode" where
  "pruneTreeByMinDistanceSearch tree dst =
     eachAfter (\<lambda>p d. if below_distance (distance (data d)) dst
                       then (if has_parent p then ClearParent else Keep) else Keep) (copy tree)"

definition collapseNode :: "tmcnode hnode \<Rightarrow> string \<Rightarrow> tmcnode hnode" where
  "collapseNode tree nodeId =
     eachAfter (\<lambda>p n. if ident (data n) = nodeId then ClearOwn else Keep) (copy tree)"

text \<open>
  \<open>setRootNode\<close> writes into the payload of the node it returns. A copy shares its
  payload objects with the tree it was copied from, so here the payloads live in a store
  and the hierarchy nodes hold their addresses; the function returns the store as it is
  after the call. \<open>tree.find(...)!\<close> on an id that is not in the tree is a TypeError at
  \<open>.copy()\<close>. The returned node is the root of its copy (\<open>parent = null\<close>).
\<close>

type_synonym addr = nat
type_synonym store = "addr \<Rightarrow> tmcnode"

definition setRootNode :: "store \<Rightarrow> addr hnode \<Rightarrow> string \<Rightarrow> error + (store \<times> addr hnode)" where
  "setRootNode st tree nodeId =
     (case find_node (\<lambda>n. ident (st (data n)) = nodeId) tree of
        None \<Rightarrow> Inl TypeError
      | Some n \<Rightarrow>
          let targetNode = copy n
          in Inr (st(data targetNode := (st (data targetNode))\<lparr>parentId := None\<rparr>), targetNode))"

text \<open>\<open>obj[k] || 0\<close> on a dictionary of counts.\<close>

definition count_of :: "(string \<times> nat) list \<Rightarrow> string \<Rightarrow> nat" where
  "count_of obj k = (case map_of obj k of None \<Rightarrow> 0 | Some v \<Rightarrow> v)"

text \<open>\<open>[...new Set(xs)]\<close>: the first occurrence of every element, in order.\<close>

fun uniq :: "'a list \<Rightarrow> 'a list \<Rightarrow> 'a list" where
  "uniq seen [] = []"
| "uniq seen (x # xs) = (if x \<in> set seen then uniq seen xs else x # uniq (x # seen) xs)"

definition merge :: "(string \<times> nat) list \<Rightarrow> (string \<times> nat) list \<Rightarrow> (string \<times> nat) list" where
  "merge obj1 obj2 =
     fold (\<lambda>k acc. AList.update k (count_of obj1 k + count_of obj2 k) acc)
       (uniq [] (map fst obj1 @ map fst obj2)) []"

section \<open>prepareData.ts\<close>

text \<open>\<open>d.items ? d.items.length : 0\<close>\<close>

definition own_count :: "tmcnode \<Rightarrow> nat" where
  "own_count d = (case items d of None \<Rightarrow> 0 | Some xs \<Rightarrow> length xs)"

definition buildTree :: "tmcnode list \<Rightarrow> error + tmcnode hnode" where
  "buildTree node =
     (case stratify node of
        Inl e \<Rightarrow> Inl e
      | Inr t \<Rightarrow>
          Inr (sum_tree (\<lambda>d. real (own_count d))
                (sort_tree (\<lambda>a b. if own_count (data a) > own_count (data b) then -1 else 1) t)))"

text \<open>\<open>s.split(c)\<close> for a one-character separator.\<close>

fun split_on :: "char \<Rightarrow> string \<Rightarrow> string list" where
  "split_on c [] = [[]]"
| "split_on c (x # xs) =
     (if x = c then [] # split_on c xs
      else (case split_on c xs of [] \<Rightarrow> [[x]] | w # ws \<Rightarrow> (x # w) # ws))"

text \<open>
  The label map of \<open>getData\<close>: the first line is skipped; each other line \<open>l\<close> gives
  \<open>[k, v] = l.split(',')\<close> and \<open>labelMap[k] = v\<close>, where \<open>v\<close> is undefined (\<open>None\<close>) when the
  line has no comma.
\<close>

definition label_row :: "string \<Rightarrow> string \<times> string option" where
  "label_row l = (case split_on CHR '','' l of
                    [] \<Rightarrow> ([], None) | [k] \<Rightarrow> (k, None) | k # v # _ \<Rightarrow> (k, Some v))"

definition labelMap_of :: "string \<Rightarrow> (string \<times> string option) list" where
  "labelMap_of labels =
     fold (\<lambda>l m. case label_row l of (k, v) \<Rightarrow> AList.update k v m) (tl (split_on (CHR 0x0A) labels)) []"

text \<open>
  The computed property key \<open>[labelMap[curr._barcode.unCell]]\<close>: a barcode without a label
  gives \<open>undefined\<close>, which as a property key is the string \<open>"undefined"\<close>.
\<close>

definition label_key :: "(string \<times> string option) list \<Rightarrow> cell \<Rightarrow> string" where
  "label_key labelMap c =
     (case map_of labelMap (unCell (barcode c)) of Some (Some v) \<Rightarrow> v | _ \<Rightarrow> ''undefined'')"

definition leaf_labelCount :: "(string \<times> string option) list \<Rightarrow> cell list \<Rightarrow> (string \<times> nat) list" where
  "leaf_labelCount labelMap its =
     fold (\<lambda>c acc. AList.update (label_key labelMap c) (count_of acc (label_key labelMap c) + 1) acc)
       its []"

text \<open>
  The \<open>eachAfter\<close> callback of \<open>getData\<close>, children first: a node with items counts its
  items, any other node merges the counts of its children. \<open>None\<close> is the TypeError of
  \<open>n.children!.reduce\<close> on a node that has neither items nor children.
\<close>

fun label_tree :: "(string \<times> string option) list \<Rightarrow> tmcnode hnode \<Rightarrow> tmcnode hnode option" where
  "label_tree labelMap (HNode d v cs) =
     (case those (map (label_tree labelMap) cs) of
        None \<Rightarrow> None
      | Some cs' \<Rightarrow>
          (case items d of
             Some its \<Rightarrow> Some (HNode (d\<lparr>labelCount := leaf_labelCount labelMap its\<rparr>) v cs')
           | None \<Rightarrow>
               if cs' = [] then None
               else Some (HNode (d\<lparr>labelCount :=
                       fold (\<lambda>cur acc. merge acc (labelCount (data cur))) cs' []\<rparr>) v cs')))"

text \<open>
  \<open>getData\<close> on the two fetched files, the label text and the flattened tree. Its last
  pass, which numbers the nodes (\<open>nodeId\<close>), is left out: nothing here reads the number.
\<close>

definition getData :: "string \<Rightarrow> tmcnode list \<Rightarrow> error + tmcnode hnode" where
  "getData labels flat =
     (case buildTree flat of
        Inl e \<Rightarrow> Inl e
      | Inr tree \<Rightarrow>
          (case label_tree (labelMap_of labels) tree of None \<Rightarrow> Inl TypeError | Some t \<Rightarrow> Inr t))"

section \<open>usePrunedTree.ts\<close>






text \<open>
  The \<open>{scaleKey, quantity}\<close> objects of the pass are shared: a node without items stores
  in its own \<open>AttributeMap\<close> the very object of the first child that has the key
  (\<open>hilo[featurekey] = count[featurekey]\<close>) and then adds to it in place
  (\<open>hilo[featurekey].quantity += ...\<close>). So the objects live in a store, a list in which
  the address of an object is its index and a new object is appended, and the
  \<open>AttributeMap\<close> a node holds during the pass maps a key to an address.
\<close>

type_synonym attr_ref = nat
type_synonym attr_store = "attribute list"
type_synonym attr_refs = "(string \<times> attr_ref) list"

text \<open>The \<open>AttributeMap\<close> with its objects read from the store.\<close>

definition stored :: "attr_store \<Rightarrow> attr_refs \<Rightarrow> (string \<times> attribute) list" where
  "stored h hilo = map (\<lambda>(k, r). (k, h ! r)) hilo"






text \<open>
  The second \<open>updateFeatureCounts\<close> (lines 1045-1072), the average of a single feature,
  an \<open>eachAfter\<close> callback: children first. \<open>None\<close> is the TypeError of reading a property
  of \<open>undefined\<close>: \<open>n.children![0]\<close> when \<open>children\<close> is undefined, \<open>n.children![1].data\<close> when
  there is one child, \<open>_featureCounts[feature]\<close> when an item has no \<open>_featureCounts\<close>.
\<close>

definition add_count :: "string \<Rightarrow> cell \<Rightarrow> real option \<Rightarrow> real option" where
  "add_count feature c acc =
     (case (acc, featureCounts (barcode c)) of
        (Some a, Some fc) \<Rightarrow> Some (a + (case map_of fc feature of None \<Rightarrow> 0 | Some x \<Rightarrow> x))
      | _ \<Rightarrow> None)"

definition feature_total :: "string \<Rightarrow> cell list \<Rightarrow> real option" where
  "feature_total feature its = fold (add_count feature) its (Some 0)"

fun updateFeatureCounts :: "string \<Rightarrow> tmcnode hnode \<Rightarrow> tmcnode hnode option" where
  "updateFeatureCounts feature (HNode d v cs) =
     (case those (map (updateFeatureCounts feature) cs) of
        None \<Rightarrow> None
      | Some cs' \<Rightarrow>
          (case items d of
             Some its \<Rightarrow>
               (case feature_total feature its of
                  None \<Rightarrow> None
                | Some tot \<Rightarrow>
                    Some (HNode (d\<lparr>featureCount :=
                      [(feature, \<lparr>scaleKey = feature, quantity = tot / v\<rparr>)]\<rparr>) v cs'))
           | None \<Rightarrow>
               (case cs' of
                  c0 # c1 # rest \<Rightarrow>
                    (case (map_of (featureCount (data c0)) feature, map_of (featureCount (data c1)) feature) of
                       (Some a0, Some a1) \<Rightarrow>
                         Some (HNode (d\<lparr>featureCount :=
                           [(feature, \<lparr>scaleKey = feature,
                               quantity = (quantity a0 + quantity a1) /
                                          (real (length (descendants (HNode d v cs'))) - 1)\<rparr>)]\<rparr>) v cs')
                     | _ \<Rightarrow> None)
                | _ \<Rightarrow> None)))"

section \<open>Inputs used in the scenarios\<close>

definition cell_of :: "string \<Rightarrow> cell" where
  "cell_of b = \<lparr>barcode = \<lparr>unCell = b, featureCounts = None\<rparr>\<rparr>"

definition mk :: "string \<Rightarrow> string option \<Rightarrow> cell list option \<Rightarrow> real option \<Rightarrow> tmcnode" where
  "mk i p its dst = \<lparr>ident = i, parentId = p, items = its, distance = dst, significance = None,
     labelCount = [], featureCount = []\<rparr>"

text \<open>The tree \<open>A(dist=null) -> [B(dist=1, items=[x]), C(dist=3, items=[y,z])]\<close>.\<close>

definition node_A :: tmcnode where
  "node_A = mk ''A'' None None None"

definition node_B :: tmcnode where
  "node_B = mk ''B'' (Some ''A'') (Some [cell_of ''x'']) (Some 1)"

definition node_C :: tmcnode where
  "node_C = mk ''C'' (Some ''A'') (Some [cell_of ''y'', cell_of ''z'']) (Some 3)"

definition scenario_tree :: "tmcnode hnode" where
  "scenario_tree = HNode node_A 3 [HNode node_B 1 [], HNode node_C 2 []]"

lemmas scenario_defs = scenario_tree_def node_A_def node_B_def node_C_def mk_def cell_of_def

text \<open>The same tree with its payloads in a store, at the addresses 0, 1 and 2.\<close>

definition scenario_store :: store where
  "scenario_store a = (if a = 0 then node_A else if a = 1 then node_B else node_C)"

definition scenario_refs :: "addr hnode" where
  "scenario_refs = HNode 0 3 [HNode 1 1 [], HNode 2 2 []]"

text \<open>
  A flat list in which the root \<open>R\<close> has, in this order, the leaf \<open>L\<close> with one item and the
  internal node \<open>I\<close>, whose only child \<open>M\<close> is a leaf with two items.
\<close>

definition uneven_flat :: "tmcnode list" where
  "uneven_flat =
     [mk ''R'' None None None,
      mk ''L'' (Some ''R'') (Some [cell_of ''1'']) (Some 1),
      mk ''I'' (Some ''R'') None (Some 1),
      mk ''M'' (Some ''I'') (Some [cell_of ''2'', cell_of ''1'']) (Some 1)]"

definition uneven_tree :: "tmcnode hnode" where
  "uneven_tree =
     HNode (mk ''R'' None None None) 3
       [HNode (mk ''L'' (Some ''R'') (Some [cell_of ''1'']) (Some 1)) 1 [],
        HNode (mk ''I'' (Some ''R'') None (Some 1)) 2
          [HNode (mk ''M'' (Some ''I'') (Some [cell_of ''2'', cell_of ''1'']) (Some 1)) 2 []]]"

text \<open>The label file \<open>id,label\n1,red\n2,blue\<close> and the tree above with its label counts.\<close>

definition labels_csv :: string where
  "labels_csv = ''id,label'' @ [CHR 0x0A] @ ''1,red'' @ [CHR 0x0A] @ ''2,blue''"

definition labelled_tree :: "tmcnode hnode" where
  "labelled_tree =
     HNode ((mk ''R'' None None None)\<lparr>labelCount := [(''red'', 2), (''blue'', 1)]\<rparr>) 3
       [HNode ((mk ''L'' (Some ''R'') (Some [cell_of ''1'']) (Some 1))\<lparr>labelCount := [(''red'', 1)]\<rparr>) 1 [],
        HNode ((mk ''I'' (Some ''R'') None (Some 1))\<lparr>labelCount := [(''blue'', 1), (''red'', 1)]\<rparr>) 2
          [HNode ((mk ''M'' (Some ''I'') (Some [cell_of ''2'', cell_of ''1'']) (Some 1))
                    \<lparr>labelCount := [(''blue'', 1), (''red'', 1)]\<rparr>) 2 []]]"

text \<open>A single leaf with the barcodes 1 and 2, and one with the barcodes 1, 3 and 2.\<close>

definition leaf12 :: tmcnode where
  "leaf12 = mk ''n'' None (Some [cell_of ''1'', cell_of ''2'']) None"

definition leaf132 :: tmcnode where
  "leaf132 = mk ''n'' None (Some [cell_of ''1'', cell_of ''3'', cell_of ''2'']) None"





text \<open>A root without items over three leaves whose single items hold 2, 4 and 100 of \<open>F\<close>.\<close>

definition fleaf :: "string \<Rightarrow> real \<Rightarrow> tmcnode hnode" where
  "fleaf i x =
     HNode (mk i (Some ''R'') (Some [\<lparr>barcode = \<lparr>unCell = i, featureCounts = Some [(''F'', x)]\<rparr>\<rparr>]) None) 1 []"

definition three_kids :: "tmcnode hnode" where
  "three_kids = HNode (mk ''R'' None None None) 3 [fleaf ''a'' 2, fleaf ''b'' 4, fleaf ''c'' 100]"

section \<open>Auxiliary definitions\<close>

text \<open>
  The work of the \<open>eachBefore\<close> loop for one subtree (\<open>walk\<close>), the set of paths it cuts
  (\<open>marks\<close>), and the tree that results (\<open>before_rec\<close>): a node loses its children when
  its own callback cuts them or when the callback of one of its children cuts the
  parent's.
\<close>

fun walk :: "(path \<Rightarrow> 'd hnode \<Rightarrow> action) \<Rightarrow> path \<Rightarrow> 'd hnode \<Rightarrow> path set \<Rightarrow> path set"
  and walk_list :: "(path \<Rightarrow> 'd hnode \<Rightarrow> action) \<Rightarrow> path \<Rightarrow> nat \<Rightarrow> 'd hnode list \<Rightarrow> path set \<Rightarrow> path set" where
  "walk cb p (HNode d v cs) cl =
     (let cl' = apply_action (cb p (HNode d v cs)) p cl
      in if p \<in> cl' then cl' else walk_list cb p 0 cs cl')"
| "walk_list cb p i [] cl = cl"
| "walk_list cb p i (c # cs) cl = walk_list cb p (Suc i) cs (walk cb (p @ [i]) c cl)"

fun marks :: "(path \<Rightarrow> 'd hnode \<Rightarrow> action) \<Rightarrow> path \<Rightarrow> 'd hnode \<Rightarrow> path set"
  and marks_list :: "(path \<Rightarrow> 'd hnode \<Rightarrow> action) \<Rightarrow> path \<Rightarrow> nat \<Rightarrow> 'd hnode list \<Rightarrow> path set" where
  "marks cb p (HNode d v cs) =
     apply_action (cb p (HNode d v cs)) p {} \<union>
     (if cb p (HNode d v cs) = ClearOwn then {} else marks_list cb p 0 cs)"
| "marks_list cb p i [] = {}"
| "marks_list cb p i (c # cs) = marks cb (p @ [i]) c \<union> marks_list cb p (Suc i) cs"

fun before_rec :: "(path \<Rightarrow> 'd hnode \<Rightarrow> action) \<Rightarrow> path \<Rightarrow> 'd hnode \<Rightarrow> 'd hnode"
  and before_list :: "(path \<Rightarrow> 'd hnode \<Rightarrow> action) \<Rightarrow> path \<Rightarrow> nat \<Rightarrow> 'd hnode list \<Rightarrow> 'd hnode list" where
  "before_rec cb p (HNode d v cs) =
     HNode d v (if cb p (HNode d v cs) = ClearOwn \<or> (\<exists>(q, c) \<in> set (kids_from 0 p cs). cb q c = ClearParent)
                then [] else before_list cb p 0 cs)"
| "before_list cb p i [] = []"
| "before_list cb p i (c # cs) = before_rec cb (p @ [i]) c # before_list cb p (Suc i) cs"

definition fresh :: "path \<Rightarrow> path set \<Rightarrow> bool" where
  "fresh p cl = (\<forall>x\<in>cl. \<not> prefix p x)"

text \<open>The two \<open>eachBefore\<close> pruners as recursions over the tree.\<close>

fun cut_small :: "real \<Rightarrow> 'd hnode \<Rightarrow> 'd hnode" where
  "cut_small t (HNode d v cs) =
     HNode d v (if \<exists>c\<in>set cs. nvalue c < t then [] else map (cut_small t) cs)"

fun cut_near :: "real \<Rightarrow> tmcnode hnode \<Rightarrow> tmcnode hnode" where
  "cut_near t (HNode d v cs) =
     HNode d v (if below_distance (distance d) t then [] else map (cut_near t) cs)"

text \<open>A quantity added up over all nodes of a tree.\<close>

fun total :: "('d hnode \<Rightarrow> real) \<Rightarrow> 'd hnode \<Rightarrow> real" where
  "total g (HNode d v cs) = g (HNode d v cs) + (\<Sum>c\<leftarrow>cs. total g c)"

text \<open>The nodes of a tree as positions with their payloads, and the payloads alone.\<close>

fun located :: "path \<Rightarrow> 'd hnode \<Rightarrow> (path \<times> 'd) set"
  and located_list :: "path \<Rightarrow> nat \<Rightarrow> 'd hnode list \<Rightarrow> (path \<times> 'd) set" where
  "located p (HNode d v cs) = insert (p, d) (located_list p 0 cs)"
| "located_list p i [] = {}"
| "located_list p i (c # cs) = located (p @ [i]) c \<union> located_list p (Suc i) cs"

fun payloads :: "'d hnode \<Rightarrow> 'd set" where
  "payloads (HNode d v cs) = insert d (\<Union>c\<in>set cs. payloads c)"

text \<open>The two comparators of the program, on what they read.\<close>

definition compare_items :: "tmcnode \<Rightarrow> tmcnode \<Rightarrow> real" where
  "compare_items a b = (if own_count a > own_count b then -1 else 1)"














text \<open>
  For the proof that the pass returns this tree: the addresses that a tree holds, the
  tree read from a store, children whose addresses are apart, and what holds of a
  subtree once the pass has left it, in every store that differs from the store of the
  pass at the addresses of the root's map only.
\<close>

fun refs_of :: "(tmcnode \<times> attr_refs) hnode \<Rightarrow> nat set" where
  "refs_of (HNode dm v cs) = snd ` set (snd dm) \<union> (\<Union>c\<in>set cs. refs_of c)"



section \<open>Lemmas\<close>

subsection \<open>Trees\<close>

lemma nsize_sum_children:
  "sum_list (map nsize ns) = length ns + sum_list (map nsize (concat (map children ns)))"
proof (induction ns)
  case Nil
  then show ?case by simp
next
  case (Cons n ns)
  then show ?case by (cases n) simp
qed

lemma length_iterate: "length (iterate ns) = sum_list (map nsize ns)"
proof (induction ns rule: iterate.induct)
  case 1
  then show ?case by simp
next
  case (2 n ns)
  show ?case
    using "2.IH" nsize_sum_children[of "n # ns"] by simp
qed

lemma length_descendants: "length (descendants t) = nsize t"
  unfolding descendants_def length_iterate by simp

lemma subtrees_level:
  "(\<Union>m\<in>set ns. subtrees m) = set ns \<union> (\<Union>m\<in>set (concat (map children ns)). subtrees m)"
proof (induction ns)
  case Nil
  then show ?case by simp
next
  case (Cons n ns)
  obtain d v cs where n: "n = HNode d v cs" by (cases n)
  have "(\<Union>m\<in>set (n # ns). subtrees m) = subtrees n \<union> (\<Union>m\<in>set ns. subtrees m)"
    by simp
  also have "\<dots> = insert n (\<Union>c\<in>set cs. subtrees c) \<union> (set ns \<union> (\<Union>m\<in>set (concat (map children ns)). subtrees m))"
    unfolding Cons.IH n by simp
  also have "\<dots> = set (n # ns) \<union> (\<Union>m\<in>set (concat (map children (n # ns))). subtrees m)"
    unfolding n by auto
  finally show ?case .
qed

lemma set_iterate: "set (iterate ns) = (\<Union>n\<in>set ns. subtrees n)"
proof (induction ns rule: iterate.induct)
  case 1
  then show ?case by simp
next
  case (2 n ns)
  have "set (iterate (n # ns)) = set (n # ns) \<union> set (iterate (concat (map children (n # ns))))"
    by (subst iterate.simps) simp
  also have "\<dots> = set (n # ns) \<union> (\<Union>m\<in>set (concat (map children (n # ns))). subtrees m)"
    unfolding "2.IH" ..
  also have "\<dots> = (\<Union>m\<in>set (n # ns). subtrees m)"
    by (rule subtrees_level[symmetric])
  finally show ?case .
qed

lemma set_descendants: "set (descendants t) = subtrees t"
  unfolding descendants_def set_iterate by simp

lemma self_subtree [simp]: "n \<in> subtrees n"
  by (cases n) simp

lemma subtrees_trans: "n \<in> subtrees t \<Longrightarrow> m \<in> subtrees n \<Longrightarrow> m \<in> subtrees t"
  by (induction t) auto

lemma child_subtree: "c \<in> set (children n) \<Longrightarrow> c \<in> subtrees n"
  by (cases n) (auto intro: bexI[of _ c])

lemma copy_same: "copy t = t"
  by (induction t) (simp add: map_idI)

lemma data_subtrees: "data ` subtrees n = payloads n"
proof (induction n)
  case (HNode d v cs)
  have "data ` (\<Union>c\<in>set cs. subtrees c) = (\<Union>c\<in>set cs. data ` subtrees c)"
    by (rule image_UN)
  also have "\<dots> = (\<Union>c\<in>set cs. payloads c)"
    using HNode.IH by (intro SUP_cong refl)
  finally show ?case by simp
qed

subsection \<open>Lists\<close>

lemma those_map_all2:
  "those (map g xs) = Some ys \<Longrightarrow> list_all2 (\<lambda>x y. g x = Some y) xs ys"
  by (induction xs arbitrary: ys) (auto split: option.splits)

lemma those_map_total:
  "(\<And>x. x \<in> set xs \<Longrightarrow> \<exists>y. g x = Some y) \<Longrightarrow> \<exists>ys. those (map g xs) = Some ys"
proof (induction xs)
  case Nil
  then show ?case by simp
next
  case (Cons x xs)
  from Cons.prems[of x] obtain y where "g x = Some y" by auto
  moreover from Cons.IH Cons.prems obtain ys where "those (map g xs) = Some ys" by auto
  ultimately show ?case by simp
qed

lemma list_all2_right: "list_all2 P xs ys \<Longrightarrow> y \<in> set ys \<Longrightarrow> \<exists>x\<in>set xs. P x y"
  by (induction rule: list_all2_induct) auto

lemma list_all2_left: "list_all2 P xs ys \<Longrightarrow> x \<in> set xs \<Longrightarrow> \<exists>y\<in>set ys. P x y"
  by (induction rule: list_all2_induct) auto

lemma list_all2_map_right: "list_all2 (\<lambda>x y. f y = x) xs ys \<Longrightarrow> map f ys = xs"
  by (induction rule: list_all2_induct) auto

lemma list_all2_map_eq: "list_all2 (\<lambda>x y. f y = g x) xs ys \<Longrightarrow> map f ys = map g xs"
  by (induction rule: list_all2_induct) auto

lemma sum_list_concat_map: "sum_list (map g (concat (map h xs))) = (\<Sum>x\<leftarrow>xs. sum_list (map g (h x)))"
  by (induction xs) simp_all

subsection \<open>The eachBefore loop computes the recursion\<close>

lemma walk_list_fold: "walk_list cb p i cs cl = fold (\<lambda>(q, c). walk cb q c) (kids_from i p cs) cl"
  by (induction cs arbitrary: i cl) simp_all

lemma walk_children: "walk cb p n cl =
  (let cl' = apply_action (cb p n) p cl
   in if p \<in> cl' then cl' else fold (\<lambda>(q, c). walk cb q c) (kids_from 0 p (children n)) cl')"
  by (cases n) (simp add: walk_list_fold Let_def)

lemma loop_fold: "eachBefore_loop cb nodes cl = fold (\<lambda>(q, c). walk cb q c) nodes cl"
proof (induction cb nodes cl rule: eachBefore_loop.induct)
  case (1 cb cl)
  then show ?case by simp
next
  case (2 cb p n nodes cl)
  then show ?case
    by (simp add: walk_children[of cb p n cl] Let_def)
qed

lemma marks_sub:
  "x \<in> marks cb p (n :: 'd hnode) \<Longrightarrow> x = butlast p \<or> prefix p x"
  "x \<in> marks_list cb p i (cs :: 'd hnode list) \<Longrightarrow> x = p \<or> (\<exists>j\<ge>i. prefix (p @ [j]) x)"
proof (induction cb p n and cb p i cs rule: marks_marks_list.induct)
  case (1 cb p d v cs)
  then show ?case
    by (cases "cb p (HNode d v cs)") (auto split: if_splits dest: append_prefixD)
next
  case (2 cb p i)
  then show ?case by simp
next
  case (3 cb p i c cs)
  then show ?case
    by (auto dest: Suc_leD)
qed

lemma not_prefix_snoc_self [simp]: "\<not> prefix (p @ [j]) p"
  by (auto simp: prefix_def)

lemma not_prefix_snoc_butlast [simp]: "\<not> prefix (p @ [j]) (butlast p)"
  by (metis not_prefix_snoc_self prefix_order.dual_order.trans prefixeq_butlast)

lemma prefix_snoc_diff: "prefix (p @ [i]) x \<Longrightarrow> prefix (p @ [j]) x \<Longrightarrow> i = j"
  by (auto simp: prefix_def append_eq_append_conv2 Cons_eq_append_conv)

lemma walk_marks:
  "fresh p cl \<Longrightarrow> (p = [] \<longrightarrow> cb p n \<noteq> ClearParent) \<Longrightarrow> walk cb p (n :: 'd hnode) cl = cl \<union> marks cb p n"
  "(\<forall>j\<ge>i. fresh (p @ [j]) cl) \<Longrightarrow> walk_list cb p i (cs :: 'd hnode list) cl = cl \<union> marks_list cb p i cs"
proof (induction cb p n and cb p i cs arbitrary: cl and cl rule: marks_marks_list.induct)
  case (1 cb p d v cs)
  have pcl: "p \<notin> cl" using "1.prems"(1) by (auto simp: fresh_def)
  show ?case
  proof (cases "cb p (HNode d v cs)")
    case Keep
    have "\<forall>j\<ge>0. fresh (p @ [j]) cl"
      using "1.prems"(1) by (auto simp: fresh_def dest: append_prefixD)
    with Keep pcl "1.IH"[of cl] show ?thesis by simp
  next
    case ClearOwn
    then show ?thesis by simp
  next
    case ClearParent
    with "1.prems"(2) have ne: "p \<noteq> []" by auto
    then have bl: "butlast p \<noteq> p"
      by (metis append_butlast_last_id not_prefix_snoc_self prefix_order.order_refl) 
    have "\<forall>j\<ge>0. fresh (p @ [j]) (insert (butlast p) cl)"
      using "1.prems"(1) by (auto simp: fresh_def dest: append_prefixD)
    with ClearParent pcl bl "1.IH"[of "insert (butlast p) cl"] show ?thesis by auto
  qed
next
  case (2 cb p i)
  then show ?case by simp
next
  case (3 cb p i c cs)
  have f: "fresh (p @ [i]) cl" using "3.prems" by auto
  have w: "walk cb (p @ [i]) c cl = cl \<union> marks cb (p @ [i]) c"
    using "3.IH"(1)[OF f] by simp
  have "\<forall>j\<ge>Suc i. fresh (p @ [j]) (cl \<union> marks cb (p @ [i]) c)"
  proof (intro allI impI)
    fix j assume j: "Suc i \<le> j"
    then have "fresh (p @ [j]) cl" using "3.prems" by auto
    moreover have "\<not> prefix (p @ [j]) x" if "x \<in> marks cb (p @ [i]) c" for x
      using marks_sub(1)[OF that] j by (auto dest: prefix_snoc_diff)
    ultimately show "fresh (p @ [j]) (cl \<union> marks cb (p @ [i]) c)"
      by (auto simp: fresh_def)
  qed
  from "3.IH"(2)[OF this] w show ?case by auto
qed

lemma self_in_marks_list:
  "p \<in> marks_list cb p i (cs :: 'd hnode list) \<longleftrightarrow> (\<exists>(q, c) \<in> set (kids_from i p cs). cb q c = ClearParent)"
proof (induction cs arbitrary: i)
  case Nil
  then show ?case by simp
next
  case (Cons c cs)
  have "p \<in> marks cb (p @ [i]) c \<longleftrightarrow> cb (p @ [i]) c = ClearParent"
  proof (cases c)
    case (HNode d v ds)
    have "p \<notin> marks_list cb (p @ [i]) 0 ds"
      using marks_sub(2)[of p cb "p @ [i]" 0 ds] by (auto dest: append_prefixD)
    then show ?thesis
      unfolding HNode by (cases "cb (p @ [i]) (HNode d v ds)") auto
  qed
  with Cons.IH[of "Suc i"] show ?case by auto
qed

lemma detach_marks:
  "(p = [] \<longrightarrow> cb p n \<noteq> ClearParent) \<Longrightarrow> (\<forall>x. prefix p x \<longrightarrow> (x \<in> S \<longleftrightarrow> x \<in> marks cb p n))
     \<Longrightarrow> detach S p (n :: 'd hnode) = before_rec cb p n"
  "(\<forall>x j. i \<le> j \<longrightarrow> prefix (p @ [j]) x \<longrightarrow> (x \<in> S \<longleftrightarrow> x \<in> marks_list cb p i cs))
     \<Longrightarrow> detach_list S p i (cs :: 'd hnode list) = before_list cb p i cs"
proof (induction cb p n and cb p i cs rule: marks_marks_list.induct)
  case (1 cb p d v cs)
  let ?n = "HNode d v cs"
  have own: "p \<in> apply_action (cb p ?n) p {} \<longleftrightarrow> cb p ?n = ClearOwn"
  proof (cases "cb p ?n")
    case ClearParent
    with "1.prems"(1) have "p \<noteq> []" by auto
    then have "butlast p \<noteq> p"
      by (metis append_butlast_last_id not_prefix_snoc_self prefix_order.order_refl)
    with ClearParent show ?thesis by auto
  qed auto
  have pS: "p \<in> S \<longleftrightarrow> cb p ?n = ClearOwn \<or> (\<exists>(q, c) \<in> set (kids_from 0 p cs). cb q c = ClearParent)"
    using "1.prems"(2) own self_in_marks_list[of p cb 0 cs] by auto
  show ?case
  proof (cases "p \<in> S")
    case True
    with pS show ?thesis by auto
  next
    case False
    with pS have no: "cb p ?n \<noteq> ClearOwn" by auto
    have "\<forall>x j. 0 \<le> j \<longrightarrow> prefix (p @ [j]) x \<longrightarrow> (x \<in> S \<longleftrightarrow> x \<in> marks_list cb p 0 cs)"
    proof (intro allI impI)
      fix x j assume px: "prefix (p @ [j]) x"
      then have "prefix p x" by (rule append_prefixD)
      then have "x \<in> S \<longleftrightarrow> x \<in> marks cb p ?n" using "1.prems"(2) by blast
      moreover have "x \<notin> apply_action (cb p ?n) p {}"
        using px by (cases "cb p ?n") auto
      ultimately show "x \<in> S \<longleftrightarrow> x \<in> marks_list cb p 0 cs" using no by simp
    qed
    from "1.IH"[OF no this] False pS show ?thesis by auto
  qed
next
  case (2 cb p i)
  then show ?case by simp
next
  case (3 cb p i c cs)
  have a: "\<forall>x. prefix (p @ [i]) x \<longrightarrow> (x \<in> S \<longleftrightarrow> x \<in> marks cb (p @ [i]) c)"
  proof (intro allI impI)
    fix x assume px: "prefix (p @ [i]) x"
    have "x \<notin> marks_list cb p (Suc i) cs"
    proof
      assume "x \<in> marks_list cb p (Suc i) cs"
      then consider "x = p" | j where "Suc i \<le> j" "prefix (p @ [j]) x"
        using marks_sub(2) by blast
      then show False
      proof cases
        case 1
        with px show False by simp
      next
        case 2
        with prefix_snoc_diff[OF px 2(2)] show False by simp
      qed
    qed
    with "3.prems" px show "x \<in> S \<longleftrightarrow> x \<in> marks cb (p @ [i]) c" by auto
  qed
  have b: "\<forall>x j. Suc i \<le> j \<longrightarrow> prefix (p @ [j]) x \<longrightarrow> (x \<in> S \<longleftrightarrow> x \<in> marks_list cb p (Suc i) cs)"
  proof (intro allI impI)
    fix x j assume j: "Suc i \<le> j" and px: "prefix (p @ [j]) x"
    have "x \<notin> marks cb (p @ [i]) c"
    proof
      assume "x \<in> marks cb (p @ [i]) c"
      then consider "x = p" | "prefix (p @ [i]) x"
        using marks_sub(1)[of x cb "p @ [i]" c] by auto
      then show False
      proof cases
        case 1
        with px show False by simp
      next
        case 2
        with prefix_snoc_diff[OF 2 px] j show False by simp
      qed
    qed
    moreover have "x \<in> S \<longleftrightarrow> x \<in> marks_list cb p i (c # cs)"
      using "3.prems" j px by (meson Suc_leD)
    ultimately show "x \<in> S \<longleftrightarrow> x \<in> marks_list cb p (Suc i) cs" by simp
  qed
  from "3.IH"(1)[OF _ a] "3.IH"(2)[OF b] show ?case by simp
qed

lemma eachBefore_rec:
  assumes "cb [] t \<noteq> ClearParent"
  shows "eachBefore cb t = before_rec cb [] t"
proof -
  have "eachBefore_loop cb [([], t)] {} = marks cb [] t"
    using walk_marks(1)[of "[]" "{}" cb t] assms by (simp add: loop_fold fresh_def)
  then show ?thesis
    using detach_marks(1)[of "[]" cb t "marks cb [] t"] assms by (simp add: eachBefore_def)
qed

lemma kids_nonroot: "(q, c) \<in> set (kids_from i p cs) \<Longrightarrow> q \<noteq> []"
  by (induction cs arbitrary: i) auto

lemma kids_snd_set: "snd ` set (kids_from i p cs) = set cs"
  by (induction cs arbitrary: i) auto

subsection \<open>Pruning by minimum value\<close>

lemma minvalue_rec:
  assumes "cb = (\<lambda>p d. if nvalue d < t then (if has_parent p then ClearParent else Keep) else Keep)"
  shows "before_rec cb p (n :: 'd hnode) = cut_small t n"
    and "before_list cb p i (cs :: 'd hnode list) = map (cut_small t) cs"
  using assms
proof (induction cb p n and cb p i cs rule: before_rec_before_list.induct)
  case (1 cb p d v cs)
  have "(\<exists>(q, c) \<in> set (kids_from 0 p cs). cb q c = ClearParent) \<longleftrightarrow> (\<exists>c\<in>set cs. nvalue c < t)"
  proof
    assume "\<exists>(q, c) \<in> set (kids_from 0 p cs). cb q c = ClearParent"
    then obtain q c where "(q, c) \<in> set (kids_from 0 p cs)" "cb q c = ClearParent" by auto
    then show "\<exists>c\<in>set cs. nvalue c < t"
      using kids_snd_set[of 0 p cs] "1.prems" by (force split: if_splits)
  next
    assume "\<exists>c\<in>set cs. nvalue c < t"
    then obtain c where c: "c \<in> set cs" "nvalue c < t" by auto
    then obtain q where q: "(q, c) \<in> set (kids_from 0 p cs)"
      using kids_snd_set[of 0 p cs] by force
    with c kids_nonroot[OF q] "1.prems" show "\<exists>(q, c) \<in> set (kids_from 0 p cs). cb q c = ClearParent"
      by (auto simp: has_parent_def intro!: bexI[of _ "(q, c)"])
  qed
  moreover have "cb p (HNode d v cs) \<noteq> ClearOwn" using "1.prems" by simp
  ultimately show ?case using "1.IH" "1.prems" by simp
next
  case (2 cb p i)
  then show ?case by simp
next
  case (3 cb p i c cs)
  then show ?case by simp
qed

lemma pruneTreeByMinValue_cut: "pruneTreeByMinValue tree t = cut_small t tree"
  unfolding pruneTreeByMinValue_def copy_same
  by (subst eachBefore_rec) (simp_all add: has_parent_def minvalue_rec(1)[OF refl])

lemma cut_small_idem: "cut_small t (cut_small t n) = cut_small t n"
proof (induction n)
  case (HNode d v cs)
  show ?case
  proof (cases "\<exists>c\<in>set cs. nvalue c < t")
    case True
    then show ?thesis by simp
  next
    case False
    have nv: "nvalue (cut_small t c) = nvalue c" for c :: "'a hnode"
      by (cases c) simp
    from False have "\<not> (\<exists>c\<in>set (map (cut_small t) cs). nvalue c < t)"
      by (auto simp: nv)
    with False HNode.IH show ?thesis by (simp add: nv)
  qed
qed

lemma located_list_mono:
  "(\<And>c q. c \<in> set cs \<Longrightarrow> located q (f c) \<subseteq> located q (g c))
    \<Longrightarrow> located_list p i (map f cs) \<subseteq> located_list p i (map g cs)"
proof (induction cs arbitrary: i)
  case Nil
  then show ?case by simp
next
  case (Cons c cs)
  have "located (p @ [i]) (f c) \<subseteq> located (p @ [i]) (g c)"
    using Cons.prems by simp
  moreover have "located_list p (Suc i) (map f cs) \<subseteq> located_list p (Suc i) (map g cs)"
    using Cons.IH Cons.prems by simp
  ultimately show ?case by (simp add: le_supI1 le_supI2)
qed

lemma nvalue_cut_small [simp]: "nvalue (cut_small t n) = nvalue n"
  by (cases n) simp

lemma data_cut_small [simp]: "data (cut_small t n) = data n"
  by (cases n) simp

lemma cut_small_located_mono:
  "t1 \<le> t2 \<Longrightarrow> located p (cut_small t2 n) \<subseteq> located p (cut_small t1 n)"
proof (induction n arbitrary: p)
  case (HNode d v cs)
  show ?case
  proof (cases "\<exists>c\<in>set cs. nvalue c < t2")
    case True
    then show ?thesis by simp
  next
    case False
    with HNode.prems have n1: "\<not> (\<exists>c\<in>set cs. nvalue c < t1)" by force
    have "located_list p 0 (map (cut_small t2) cs) \<subseteq> located_list p 0 (map (cut_small t1) cs)"
      by (rule located_list_mono) (rule HNode.IH[OF _ HNode.prems])
    with False n1 show ?thesis by (simp add: subset_insertI2)
  qed
qed

lemma cut_small_payloads_mono:
  "t1 \<le> t2 \<Longrightarrow> payloads (cut_small t2 n) \<subseteq> payloads (cut_small t1 n)"
proof (induction n)
  case (HNode d v cs)
  show ?case
  proof (cases "\<exists>c\<in>set cs. nvalue c < t2")
    case True
    then show ?thesis by simp
  next
    case False
    with HNode.prems have n1: "\<not> (\<exists>c\<in>set cs. nvalue c < t1)" by force
    have "payloads (cut_small t2 c) \<subseteq> payloads (cut_small t1 c)" if "c \<in> set cs" for c
      using HNode.IH[OF that HNode.prems] .
    then have "(\<Union>c\<in>set cs. payloads (cut_small t2 c)) \<subseteq> (\<Union>c\<in>set cs. payloads (cut_small t1 c))"
      by blast
    then have "insert d (\<Union>c\<in>set cs. payloads (cut_small t2 c)) \<subseteq> insert d (\<Union>c\<in>set cs. payloads (cut_small t1 c))"
      by (rule insert_mono)
    with False n1 show ?thesis by simp
  qed
qed

lemma cut_small_nsize_mono:
  "t1 \<le> t2 \<Longrightarrow> nsize (cut_small t2 n) \<le> nsize (cut_small t1 n)"
proof (induction n)
  case (HNode d v cs)
  show ?case
  proof (cases "\<exists>c\<in>set cs. nvalue c < t2")
    case True
    then show ?thesis by simp
  next
    case False
    with HNode.prems have n1: "\<not> (\<exists>c\<in>set cs. nvalue c < t1)" by force
    have "sum_list (map (\<lambda>c. nsize (cut_small t2 c)) cs) \<le> sum_list (map (\<lambda>c. nsize (cut_small t1 c)) cs)"
      by (rule sum_list_mono) (rule HNode.IH[OF _ HNode.prems])
    with False n1 show ?thesis by (simp add: comp_def)
  qed
qed

subsection \<open>Pruning by minimum distance\<close>

lemma mindistance_rec:
  assumes "cb = (\<lambda>p d. if below_distance (distance (data d)) t then ClearOwn else Keep)"
  shows "before_rec cb p n = cut_near t n"
    and "before_list cb p i cs = map (cut_near t) cs"
  using assms
proof (induction cb p n and cb p i cs rule: before_rec_before_list.induct)
  case (1 cb p d v cs)
  have "\<not> (\<exists>(q, c) \<in> set (kids_from 0 p cs). cb q c = ClearParent)"
    using "1.prems" by auto
  then show ?case using "1.IH" "1.prems" by simp
next
  case (2 cb p i)
  then show ?case by simp
next
  case (3 cb p i c cs)
  then show ?case by simp
qed

lemma pruneTreeByMinDistance_cut: "pruneTreeByMinDistance tree t = cut_near t tree"
  unfolding pruneTreeByMinDistance_def copy_same
  by (subst eachBefore_rec) (simp_all add: mindistance_rec(1)[OF refl])

lemma cut_near_fixed:
  "cut_near t n = n \<Longrightarrow> m \<in> subtrees n \<Longrightarrow> children m \<noteq> [] \<Longrightarrow> \<not> below_distance (distance (data m)) t"
proof (induction n)
  case (HNode d v cs)
  show ?case
  proof (cases "below_distance (distance d) t")
    case True
    with HNode.prems(1) have "cs = []" by simp
    with HNode.prems(2,3) show ?thesis by simp
  next
    case False
    with HNode.prems(1) have "map (cut_near t) cs = cs" by simp
    then have "map (cut_near t) cs = map (\<lambda>c. c) cs" by simp
    then have fx: "\<forall>c\<in>set cs. cut_near t c = c"
      unfolding map_eq_conv .
    from HNode.prems(2) consider "m = HNode d v cs" | c where "c \<in> set cs" "m \<in> subtrees c"
      by auto
    then show ?thesis
    proof cases
      case 1
      with False show ?thesis by simp
    next
      case 2
      with HNode.IH[OF 2(1) _ 2(2) HNode.prems(3)] fx show ?thesis by simp
    qed
  qed
qed

subsection \<open>The insertion sort with the comparator of buildTree\<close>

lemma js_insert_map:
  "map f (js_insert (\<lambda>a b. c (f a) (f b)) x ys) = js_insert c (f x) (map f ys)"
  by (induction ys) auto

lemma js_sort_map: "map f (js_sort (\<lambda>a b. c (f a) (f b)) xs) = js_sort c (map f xs)"
proof -
  have "map f (fold (js_insert (\<lambda>a b. c (f a) (f b))) xs acc) = fold (js_insert c) (map f xs) (map f acc)" for acc
    by (induction xs arbitrary: acc) (simp_all add: js_insert_map)
  from this[of "[]"] show ?thesis by (simp add: js_sort_def)
qed

lemma js_insert_sorted:
  "sorted_wrt (\<lambda>a b. own_count a \<ge> own_count b) ys
    \<Longrightarrow> sorted_wrt (\<lambda>a b. own_count a \<ge> own_count b) (js_insert compare_items x ys)"
  by (induction ys) (auto simp: set_js_insert compare_items_def)

lemma js_insert_filter:
  "sorted_wrt (\<lambda>a b. own_count a \<ge> own_count b) ys \<Longrightarrow>
   filter (\<lambda>d. own_count d = k) (js_insert compare_items x ys) =
   filter (\<lambda>d. own_count d = k) ys @ (if own_count x = k then [x] else [])"
proof (induction ys)
  case Nil
  then show ?case by simp
next
  case (Cons y ys)
  show ?case
  proof (cases "own_count x > own_count y")
    case True
    have "filter (\<lambda>d. own_count d = own_count x) (y # ys) = []"
      using True Cons.prems by (auto simp: filter_empty_conv)
    with True show ?thesis by (auto simp: compare_items_def)
  next
    case False
    with Cons show ?thesis by (simp add: compare_items_def)
  qed
qed

lemma fold_js_insert_props:
  "sorted_wrt (\<lambda>a b. own_count a \<ge> own_count b) acc \<Longrightarrow>
   sorted_wrt (\<lambda>a b. own_count a \<ge> own_count b) (fold (js_insert compare_items) xs acc) \<and>
   filter (\<lambda>d. own_count d = k) (fold (js_insert compare_items) xs acc) =
     filter (\<lambda>d. own_count d = k) acc @ filter (\<lambda>d. own_count d = k) xs"
proof (induction xs arbitrary: acc)
  case Nil
  then show ?case by simp
next
  case (Cons x xs)
  from Cons.IH[OF js_insert_sorted[OF Cons.prems, of x]] js_insert_filter[OF Cons.prems, of k x]
  show ?case by simp
qed

lemma js_sort_sorted: "sorted_wrt (\<lambda>a b. own_count a \<ge> own_count b) (js_sort compare_items xs)"
  using fold_js_insert_props[of "[]" xs] by (simp add: js_sort_def)

lemma js_sort_stable:
  "filter (\<lambda>d. own_count d = k) (js_sort compare_items xs) = filter (\<lambda>d. own_count d = k) xs"
  using fold_js_insert_props[of "[]" xs k] by (simp add: js_sort_def)

subsection \<open>stratify, sort and sum\<close>

lemma build_data: "build fuel nodes d = Some t \<Longrightarrow> data t = d"
  by (cases fuel) auto

lemma build_children:
  "build fuel nodes d = Some t \<Longrightarrow> n \<in> subtrees t \<Longrightarrow> map data (children n) = kids_of nodes (data n)"
proof (induction fuel arbitrary: d t)
  case 0
  then show ?case by simp
next
  case (Suc fuel)
  from Suc.prems(1) obtain cs where cs: "those (map (build fuel nodes) (kids_of nodes d)) = Some cs"
    and t: "t = HNode d 0 cs" by auto
  have all2: "list_all2 (\<lambda>x y. build fuel nodes x = Some y) (kids_of nodes d) cs"
    by (rule those_map_all2[OF cs])
  from Suc.prems(2) t consider "n = t" | c where "c \<in> set cs" "n \<in> subtrees c" by auto
  then show ?case
  proof cases
    case 1
    have "list_all2 (\<lambda>x y. data y = x) (kids_of nodes d) cs"
      by (rule list_all2_mono[OF all2]) (simp add: build_data)
    then show ?thesis using 1 t by (simp add: list_all2_map_right)
  next
    case 2
    from list_all2_right[OF all2 2(1)] obtain x where "build fuel nodes x = Some c" by auto
    from Suc.IH[OF this 2(2)] show ?thesis .
  qed
qed

lemma data_sort_tree [simp]: "data (sort_tree cmp n) = data n"
  by (cases n) simp

lemma children_sort_tree: "children (sort_tree cmp n) = map (sort_tree cmp) (js_sort cmp (children n))"
  by (cases n) simp

lemma data_sum_tree [simp]: "data (sum_tree f n) = data n"
  by (cases n) (simp add: Let_def)

lemma children_sum_tree: "children (sum_tree f n) = map (sum_tree f) (children n)"
  by (cases n) (simp add: Let_def)

lemma subtrees_sort_tree:
  "n' \<in> subtrees (sort_tree cmp t) \<Longrightarrow> \<exists>n\<in>subtrees t. n' = sort_tree cmp n"
proof (induction cmp t rule: sort_tree.induct)
  case (1 cmp d v cs)
  from "1.prems" consider "n' = sort_tree cmp (HNode d v cs)"
    | c where "c \<in> set (js_sort cmp cs)" "n' \<in> subtrees (sort_tree cmp c)"
    by auto
  then show ?case
  proof cases
    case 1
    then show ?thesis by (intro bexI[of _ "HNode d v cs"]) simp_all
  next
    case 2
    from "1.IH"[OF 2] obtain n where "n \<in> subtrees c" "n' = sort_tree cmp n" by auto
    with 2(1) show ?thesis by (auto simp: set_js_sort)
  qed
qed

lemma subtrees_sum_tree:
  "n' \<in> subtrees (sum_tree f t) \<Longrightarrow> \<exists>n\<in>subtrees t. n' = sum_tree f n"
proof (induction t)
  case (HNode d v cs)
  from HNode.prems consider "n' = sum_tree f (HNode d v cs)"
    | c where "c \<in> set cs" "n' \<in> subtrees (sum_tree f c)"
    by (auto simp: Let_def)
  then show ?case
  proof cases
    case 1
    then show ?thesis by (intro bexI[of _ "HNode d v cs"]) simp_all
  next
    case 2
    from HNode.IH[OF 2] obtain n where "n \<in> subtrees c" "n' = sum_tree f n" by auto
    with 2(1) show ?thesis by auto
  qed
qed

lemma stratify_children:
  assumes "stratify nodes = Inr s" and "n \<in> subtrees s"
  shows "map data (children n) = kids_of nodes (data n)"
proof -
  from assms(1) obtain r where "build (length nodes) nodes r = Some s"
    by (auto simp: stratify_def split: option.splits if_splits)
  from build_children[OF this assms(2)] show ?thesis .
qed

lemma buildTree_children:
  assumes "buildTree nodes = Inr t" and "n \<in> subtrees t"
  shows "map data (children n) = js_sort compare_items (kids_of nodes (data n))"
proof -
  let ?cmp = "\<lambda>a b. if own_count (data a) > own_count (data b) then -1 else (1::real)"
  let ?f = "\<lambda>d. real (own_count d)"
  from assms(1) obtain s where s: "stratify nodes = Inr s" and t: "t = sum_tree ?f (sort_tree ?cmp s)"
    by (auto simp: buildTree_def split: sum.splits)
  from assms(2) t obtain n1 where n1: "n1 \<in> subtrees (sort_tree ?cmp s)" "n = sum_tree ?f n1"
    using subtrees_sum_tree by blast
  from subtrees_sort_tree[OF n1(1)] obtain n0 where n0: "n0 \<in> subtrees s" "n1 = sort_tree ?cmp n0"
    by blast
  have cmp: "?cmp = (\<lambda>a b. compare_items (data a) (data b))"
    by (simp add: compare_items_def)
  have "map data (children n) = map data (js_sort ?cmp (children n0))"
    using n1(2) n0(2) by (simp add: children_sum_tree children_sort_tree comp_def)
  also have "\<dots> = js_sort compare_items (map data (children n0))"
    unfolding cmp by (rule js_sort_map)
  also have "\<dots> = js_sort compare_items (kids_of nodes (data n))"
    using stratify_children[OF s n0(1)] n1(2) n0(2) by simp
  finally show ?thesis .
qed

lemma kids_of_filter: "kids_of nodes d = filter (\<lambda>c. parent_key c = Some (ident d)) nodes"
  by (auto simp: kids_of_def node_key_def parent_key_def filter_empty_conv split: option.splits)

lemma sum_tree_summed:
  assumes "n \<in> subtrees (sum_tree f s)"
  shows "nvalue n = f (data n) + sum_list (map nvalue (children n))"
proof -
  from subtrees_sum_tree[OF assms] obtain n0 where "n = sum_tree f n0" by auto
  then show ?thesis by (cases n0) (simp add: Let_def)
qed

lemma leaf_sum:
  assumes "\<forall>m\<in>subtrees n. nvalue m = f (data m) + sum_list (map nvalue (children m))"
    and "\<forall>m\<in>subtrees n. children m \<noteq> [] \<longrightarrow> f (data m) = 0"
  shows "nvalue n = (\<Sum>l\<leftarrow>leaves n. f (data l))"
  using assms
proof (induction n)
  case (HNode d v cs)
  show ?case
  proof (cases "cs = []")
    case True
    with HNode.prems(1) show ?thesis by simp
  next
    case False
    have root: "HNode d v cs \<in> subtrees (HNode d v cs)" by simp
    from HNode.prems(2) False root have "f d = 0" by fastforce
    moreover from HNode.prems(1) root have "v = f d + sum_list (map nvalue cs)" by fastforce
    moreover have "nvalue c = (\<Sum>l\<leftarrow>leaves c. f (data l))" if "c \<in> set cs" for c
    proof (rule HNode.IH[OF that])
      show "\<forall>m\<in>subtrees c. nvalue m = f (data m) + sum_list (map nvalue (children m))"
        using HNode.prems(1) that by auto
      show "\<forall>m\<in>subtrees c. children m \<noteq> [] \<longrightarrow> f (data m) = 0"
        using HNode.prems(2) that by auto
    qed
    then have "map nvalue cs = map (\<lambda>c. \<Sum>l\<leftarrow>leaves c. f (data l)) cs" by simp
    ultimately show ?thesis using False
      by (simp add: sum_list_concat_map)
  qed
qed

lemma total_children: "total g n = g n + (\<Sum>c\<leftarrow>children n. total g c)"
  by (cases n) simp

lemma total_level:
  "(\<Sum>n\<leftarrow>ns. total g n) = sum_list (map g ns) + (\<Sum>c\<leftarrow>concat (map children ns). total g c)"
proof (induction ns)
  case Nil
  then show ?case by simp
next
  case (Cons n ns)
  have "total g n = g n + (\<Sum>c\<leftarrow>children n. total g c)" by (rule total_children)
  with Cons.IH show ?case by simp
qed

lemma sum_iterate: "sum_list (map g (iterate ns)) = (\<Sum>n\<leftarrow>ns. total g n)"
proof (induction ns rule: iterate.induct)
  case 1
  then show ?case by simp
next
  case (2 n ns)
  have "sum_list (map g (iterate (n # ns))) =
          sum_list (map g (n # ns)) + sum_list (map g (iterate (concat (map children (n # ns)))))"
    by (subst iterate.simps) simp
  also have "\<dots> = sum_list (map g (n # ns)) + (\<Sum>c\<leftarrow>concat (map children (n # ns)). total g c)"
    unfolding "2.IH" ..
  also have "\<dots> = (\<Sum>m\<leftarrow>n # ns. total g m)"
    by (rule total_level[symmetric])
  finally show ?case .
qed

lemma sum_descendants: "sum_list (map g (descendants n)) = total g n"
  unfolding descendants_def sum_iterate by simp

lemma summed_total:
  assumes "\<forall>m\<in>subtrees n. nvalue m = f (data m) + sum_list (map nvalue (children m))"
  shows "nvalue n = total (\<lambda>m. f (data m)) n"
  using assms
proof (induction n)
  case (HNode d v cs)
  have "nvalue c = total (\<lambda>m. f (data m)) c" if "c \<in> set cs" for c
  proof (rule HNode.IH[OF that])
    show "\<forall>m\<in>subtrees c. nvalue m = f (data m) + sum_list (map nvalue (children m))"
      using HNode.prems that by auto
  qed
  then have "map nvalue cs = map (total (\<lambda>m. f (data m))) cs" by simp
  then have "sum_list (map nvalue cs) = sum_list (map (total (\<lambda>m. f (data m))) cs)"
    by (rule arg_cong)
  moreover from HNode.prems have "v = f d + sum_list (map nvalue cs)" by fastforce
  ultimately show ?case by simp
qed

subsection \<open>Label counts\<close>

lemma count_of_update: "count_of (AList.update k' v acc) k = (if k = k' then v else count_of acc k)"
  by (simp add: count_of_def update_conv')

lemma keys_update: "fst ` set (AList.update k v acc) = insert k (fst ` set acc)"
  using dom_update[of k v acc] by (simp add: dom_map_of_conv_image_fst)

lemma leaf_labelCount_fold:
  "count_of (fold (\<lambda>c acc. AList.update (label_key lm c) (count_of acc (label_key lm c) + 1) acc) its acc) k
     = count_of acc k + length (filter (\<lambda>c. label_key lm c = k) its)"
  by (induction its arbitrary: acc) (simp_all add: count_of_update)

lemma leaf_labelCount_count:
  "count_of (leaf_labelCount lm its) k = length (filter (\<lambda>c. label_key lm c = k) its)"
  unfolding leaf_labelCount_def leaf_labelCount_fold by (simp add: count_of_def)

lemma set_uniq: "set (uniq seen xs) = set xs - set seen"
  by (induction xs arbitrary: seen) auto

lemma map_of_fold_update:
  "map_of (fold (\<lambda>k acc. AList.update k (h k) acc) ks acc) k =
     (if k \<in> set ks then Some (h k) else map_of acc k)"
  by (induction ks arbitrary: acc) (simp_all add: update_conv')

lemma keys_fold_update:
  "fst ` set (fold (\<lambda>k acc. AList.update k (h k) acc) ks acc) = fst ` set acc \<union> set ks"
  by (induction ks arbitrary: acc) (simp_all add: keys_update)

lemma count_of_absent: "k \<notin> fst ` set obj \<Longrightarrow> count_of obj k = 0"
  by (simp add: count_of_def map_of_eq_None_iff[THEN iffD2])

lemma count_of_merge: "count_of (merge a b) k = count_of a k + count_of b k"
proof (cases "k \<in> fst ` set a \<union> fst ` set b")
  case True
  then show ?thesis
    by (simp add: merge_def count_of_def[of "fold _ _ _"] map_of_fold_update set_uniq)
next
  case False
  then have "count_of a k = 0" "count_of b k = 0" by (simp_all add: count_of_absent)
  with False show ?thesis
    by (simp add: merge_def count_of_def[of "fold _ _ _"] map_of_fold_update set_uniq)
qed

lemma keys_merge: "fst ` set (merge a b) = fst ` set a \<union> fst ` set b"
  by (simp add: merge_def keys_fold_update set_uniq)

lemma count_of_fold_merge:
  "count_of (fold (\<lambda>cur acc. merge acc (g cur)) cs acc) k = count_of acc k + (\<Sum>c\<leftarrow>cs. count_of (g c) k)"
  by (induction cs arbitrary: acc) (simp_all add: count_of_merge)

lemma keys_fold_merge:
  "fst ` set (fold (\<lambda>cur acc. merge acc (g cur)) cs acc) = fst ` set acc \<union> (\<Union>c\<in>set cs. fst ` set (g c))"
  by (induction cs arbitrary: acc) (auto simp: keys_merge)

lemma label_tree_nvalue: "label_tree lm c = Some c' \<Longrightarrow> nvalue c' = nvalue c"
  by (cases c) (auto split: option.splits if_splits)

lemma label_tree_items: "label_tree lm c = Some c' \<Longrightarrow> items (data c') = items (data c)"
  by (cases c) (auto split: option.splits if_splits)

lemma label_tree_children:
  "label_tree lm c = Some c' \<Longrightarrow> list_all2 (\<lambda>x y. label_tree lm x = Some y) (children c) (children c')"
  by (cases c) (auto split: option.splits if_splits dest: those_map_all2)

lemma label_tree_internal:
  "label_tree lm c = Some c' \<Longrightarrow> items (data c) = None \<Longrightarrow>
     children c' \<noteq> [] \<and>
     labelCount (data c') = fold (\<lambda>cur acc. merge acc (labelCount (data cur))) (children c') []"
  by (cases c) (auto split: option.splits if_splits)

lemma label_tree_leaf:
  "label_tree lm c = Some c' \<Longrightarrow> items (data c) = Some its \<Longrightarrow>
     labelCount (data c') = leaf_labelCount lm its"
  by (cases c) (auto split: option.splits if_splits)

lemma label_tree_nodes:
  "label_tree lm s = Some t \<Longrightarrow> n \<in> subtrees t \<Longrightarrow> \<exists>n0\<in>subtrees s. label_tree lm n0 = Some n"
proof (induction s arbitrary: t n)
  case (HNode d v cs)
  have all2: "list_all2 (\<lambda>x y. label_tree lm x = Some y) cs (children t)"
    using label_tree_children[OF HNode.prems(1)] by simp
  from HNode.prems(2) consider "n = t" | c' where "c' \<in> set (children t)" "n \<in> subtrees c'"
    by (cases t) auto
  then show ?case
  proof cases
    case 1
    with HNode.prems(1) show ?thesis by (intro bexI[of _ "HNode d v cs"]) simp_all
  next
    case 2
    from list_all2_right[OF all2 2(1)] obtain c where c: "c \<in> set cs" "label_tree lm c = Some c'"
      by auto
    from HNode.IH[OF c 2(2)] c(1) show ?thesis by auto
  qed
qed

lemma label_tree_summed:
  assumes "label_tree lm s = Some t" and "n \<in> subtrees t"
    and "\<forall>m\<in>subtrees s. nvalue m = real (own_count (data m)) + sum_list (map nvalue (children m))"
  shows "nvalue n = real (own_count (data n)) + sum_list (map nvalue (children n))"
proof -
  from label_tree_nodes[OF assms(1,2)] obtain n0 where n0: "n0 \<in> subtrees s" "label_tree lm n0 = Some n"
    by auto
  have "list_all2 (\<lambda>x y. nvalue y = nvalue x) (children n0) (children n)"
    by (rule list_all2_mono[OF label_tree_children[OF n0(2)]]) (simp add: label_tree_nvalue)
  then have "map nvalue (children n) = map nvalue (children n0)"
    by (rule list_all2_map_eq)
  moreover have "own_count (data n) = own_count (data n0)"
    using label_tree_items[OF n0(2)] by (simp add: own_count_def)
  ultimately show ?thesis
    using assms(3) n0(1) label_tree_nvalue[OF n0(2)] by simp
qed

subsection \<open>The category key\<close>





















lemma stored_concat: "stored h (concat ms) = concat (map (stored h) ms)"
  by (induction ms) (auto simp: stored_def)










lemma child_refs: "c \<in> set (children t) \<Longrightarrow> refs_of c \<subseteq> refs_of t"
  by (cases t) auto





























subsection \<open>The single-feature average\<close>

lemma add_count_None: "add_count feature c None = None"
  by (simp add: add_count_def)

lemma feature_total_fold_None: "fold (add_count feature) its None = None"
  by (induction its) (simp_all add: add_count_None)

lemma feature_total_fold_Some:
  "fold (add_count feature) its (Some a) = None \<longleftrightarrow> (\<exists>c\<in>set its. featureCounts (barcode c) = None)"
proof (induction its arbitrary: a)
  case Nil
  then show ?case by simp
next
  case (Cons c its)
  show ?case
  proof (cases "featureCounts (barcode c)")
    case None
    then have "add_count feature c (Some a) = None" by (simp add: add_count_def)
    with None show ?thesis by (simp add: feature_total_fold_None)
  next
    case (Some fc)
    then obtain b where "add_count feature c (Some a) = Some b" by (simp add: add_count_def)
    with Some Cons.IH show ?thesis by simp
  qed
qed

lemma feature_total_None:
  "feature_total feature its = None \<longleftrightarrow> (\<exists>c\<in>set its. featureCounts (barcode c) = None)"
  unfolding feature_total_def by (rule feature_total_fold_Some)

lemma updateFeatureCounts_children:
  "updateFeatureCounts feature c = Some c' \<Longrightarrow>
     list_all2 (\<lambda>x y. updateFeatureCounts feature x = Some y) (children c) (children c')"
  by (cases c) (auto split: option.splits list.splits dest: those_map_all2)

lemma updateFeatureCounts_sets_feature:
  "updateFeatureCounts feature c = Some c' \<Longrightarrow> \<exists>a. featureCount (data c') = [(feature, a)]"
  by (cases c) (auto split: option.splits list.splits)

lemma updateFeatureCounts_nsize:
  "updateFeatureCounts feature c = Some c' \<Longrightarrow> nsize c' = nsize c"
proof (induction c arbitrary: c')
  case (HNode d v cs)
  have all2: "list_all2 (\<lambda>x y. updateFeatureCounts feature x = Some y) cs (children c')"
    using updateFeatureCounts_children[OF HNode.prems] by simp
  have "list_all2 (\<lambda>x y. nsize y = nsize x) cs (children c')"
    using all2 HNode.IH by (induction rule: list_all2_induct) auto
  then have "map nsize (children c') = map nsize cs"
    by (rule list_all2_map_eq)
  then have "nsize c' = Suc (sum_list (map nsize cs))"
    by (cases c') simp
  then show ?case by simp
qed

lemma updateFeatureCounts_needs:
  assumes "updateFeatureCounts feature t = Some t'" and "n \<in> subtrees t"
  shows "(items (data n) = None \<longrightarrow> 2 \<le> length (children n)) \<and>
         (\<forall>its. items (data n) = Some its \<longrightarrow> (\<forall>c\<in>set its. featureCounts (barcode c) \<noteq> None))"
  using assms
proof (induction t arbitrary: t')
  case (HNode d v cs)
  have all2: "list_all2 (\<lambda>x y. updateFeatureCounts feature x = Some y) cs (children t')"
    using updateFeatureCounts_children[OF HNode.prems(1)] by simp
  from HNode.prems(2) consider "n = HNode d v cs" | c where "c \<in> set cs" "n \<in> subtrees c"
    by auto
  then show ?case
  proof cases
    case 1
    show ?thesis
    proof (cases "items d")
      case None
      with HNode.prems(1) have "2 \<le> length (children t')"
        by (auto split: option.splits list.splits)
      with list_all2_lengthD[OF all2] 1 None show ?thesis by simp
    next
      case (Some its)
      with HNode.prems(1) have "feature_total feature its \<noteq> None"
        by (auto split: option.splits)
      with 1 Some show ?thesis by (auto simp: feature_total_None)
    qed
  next
    case 2
    from list_all2_left[OF all2 2(1)] obtain c' where "updateFeatureCounts feature c = Some c'"
      by auto
    from HNode.IH[OF 2(1) this 2(2)] show ?thesis .
  qed
qed

lemma updateFeatureCounts_defined:
  "(\<And>n. n \<in> subtrees t \<Longrightarrow>
      (items (data n) = None \<longrightarrow> 2 \<le> length (children n)) \<and>
      (\<forall>its. items (data n) = Some its \<longrightarrow> (\<forall>c\<in>set its. featureCounts (barcode c) \<noteq> None)))
     \<Longrightarrow> \<exists>t'. updateFeatureCounts feature t = Some t'"
proof (induction t)
  case (HNode d v cs)
  have "\<exists>y. updateFeatureCounts feature c = Some y" if "c \<in> set cs" for c
  proof (rule HNode.IH[OF that])
    fix n assume "n \<in> subtrees c"
    with that have "n \<in> subtrees (HNode d v cs)" by auto
    then show "(items (data n) = None \<longrightarrow> 2 \<le> length (children n)) \<and>
      (\<forall>its. items (data n) = Some its \<longrightarrow> (\<forall>c\<in>set its. featureCounts (barcode c) \<noteq> None))"
      by (rule HNode.prems)
  qed
  from those_map_total[of cs "updateFeatureCounts feature", OF this]
  obtain cs' where cs': "those (map (updateFeatureCounts feature) cs) = Some cs'" by auto
  have root: "(items d = None \<longrightarrow> 2 \<le> length cs) \<and>
      (\<forall>its. items d = Some its \<longrightarrow> (\<forall>c\<in>set its. featureCounts (barcode c) \<noteq> None))"
    using HNode.prems[of "HNode d v cs"] by simp
  show ?case
  proof (cases "items d")
    case (Some its)
    with root have "feature_total feature its \<noteq> None"
      by (simp add: feature_total_None)
    with Some cs' show ?thesis by auto
  next
    case None
    with root have "2 \<le> length cs" by simp
    moreover have all2: "list_all2 (\<lambda>x y. updateFeatureCounts feature x = Some y) cs cs'"
      by (rule those_map_all2[OF cs'])
    ultimately have "2 \<le> length cs'" using list_all2_lengthD by fastforce
    then obtain c0 c1 rest where l: "cs' = c0 # c1 # rest"
      by (cases cs'; cases "tl cs'") auto
    with all2 obtain x0 x1 where "updateFeatureCounts feature x0 = Some c0"
      "updateFeatureCounts feature x1 = Some c1"
      by (auto simp: list_all2_Cons2)
    then obtain a0 a1 where "featureCount (data c0) = [(feature, a0)]"
      "featureCount (data c1) = [(feature, a1)]"
      using updateFeatureCounts_sets_feature by blast
    with None cs' l show ?thesis by simp
  qed
qed

subsection \<open>The scenarios, evaluated\<close>

lemma buildTree_uneven: "buildTree uneven_flat = Inr uneven_tree"
  by (simp add: buildTree_def stratify_def uneven_flat_def uneven_tree_def mk_def node_key_def
      parent_key_def kids_of_def own_count_def js_sort_def)

lemma labelMap_csv: "labelMap_of labels_csv = [(''1'', Some ''red''), (''2'', Some ''blue'')]"
  by (simp add: labelMap_of_def labels_csv_def label_row_def)

lemma getData_uneven: "getData labels_csv uneven_flat = Inr labelled_tree"
  unfolding getData_def labelMap_csv buildTree_uneven
  by (simp add: uneven_tree_def labelled_tree_def mk_def cell_of_def leaf_labelCount_def
      label_key_def count_of_def merge_def)

lemma getData_leaf12:
  "getData labels_csv [leaf12] = Inr (HNode (leaf12\<lparr>labelCount := [(''red'', 1), (''blue'', 1)]\<rparr>) 2 [])"
  unfolding getData_def labelMap_csv
  by (simp add: buildTree_def stratify_def leaf12_def mk_def node_key_def
      parent_key_def kids_of_def own_count_def js_sort_def cell_of_def leaf_labelCount_def
      label_key_def count_of_def)




lemma three_kids_result:
  "updateFeatureCounts ''F'' three_kids =
     Some (HNode ((mk ''R'' None None None)\<lparr>featureCount := [(''F'', \<lparr>scaleKey = ''F'', quantity = 2\<rparr>)]\<rparr>) 3
       [HNode ((data (fleaf ''a'' 2))\<lparr>featureCount := [(''F'', \<lparr>scaleKey = ''F'', quantity = 2\<rparr>)]\<rparr>) 1 [],
        HNode ((data (fleaf ''b'' 4))\<lparr>featureCount := [(''F'', \<lparr>scaleKey = ''F'', quantity = 4\<rparr>)]\<rparr>) 1 [],
        HNode ((data (fleaf ''c'' 100))\<lparr>featureCount := [(''F'', \<lparr>scaleKey = ''F'', quantity = 100\<rparr>)]\<rparr>) 1 []])"
  by (simp add: three_kids_def fleaf_def mk_def descendants_def feature_total_def add_count_def)

section \<open>The claims\<close>

subsection \<open>C1: what pruneTreeByMinValue removes\<close>

text \<open>
  Claim C1, as amended. \<open>pruneTreeByMinValue(tree, t)\<close> returns a copy in which every node
  that has at least one child with \<open>value < t\<close> loses all of its children (the child
  under the threshold together with its siblings), and every other node keeps all of
  its children, each pruned by the same rule; the root itself always stays. On the tree
  \<open>A -> [B, C]\<close> with the values 3, 1 and 2, the threshold 2 removes \<open>B\<close> and \<open>C\<close> and leaves
  the one-node tree \<open>{A}\<close>.
\<close>

theorem pruneTreeByMinValue_siblings:
  "pruneTreeByMinValue (HNode d v cs) t =
     HNode d v (if \<exists>c\<in>set cs. nvalue c < t then [] else map (\<lambda>c. pruneTreeByMinValue c t) cs)
   \<and> map (ident \<circ> data) (descendants (pruneTreeByMinValue scenario_tree 2)) = [''A'']"
proof
  have "(\<lambda>c. pruneTreeByMinValue c t) = cut_small t"
    by (rule ext) (rule pruneTreeByMinValue_cut)
  then show "pruneTreeByMinValue (HNode d v cs) t =
     HNode d v (if \<exists>c\<in>set cs. nvalue c < t then [] else map (\<lambda>c. pruneTreeByMinValue c t) cs)"
    by (simp add: pruneTreeByMinValue_cut)
  show "map (ident \<circ> data) (descendants (pruneTreeByMinValue scenario_tree 2)) = [''A'']"
    by (simp add: pruneTreeByMinValue_cut scenario_defs descendants_def)
qed

text \<open>The equation at the scenario tree, for a threshold that cuts and one that does not.\<close>

theorem pruneTreeByMinValue_siblings_witness:
  "pruneTreeByMinValue scenario_tree 2 = HNode node_A 3 [] \<and>
   pruneTreeByMinValue scenario_tree 1 = scenario_tree"
  using pruneTreeByMinValue_siblings[of node_A 3 "[HNode node_B 1 [], HNode node_C 2 []]" 2]
    pruneTreeByMinValue_siblings[of node_A 3 "[HNode node_B 1 [], HNode node_C 2 []]" 1]
    pruneTreeByMinValue_siblings[of node_B 1 "[]" 1]
    pruneTreeByMinValue_siblings[of node_C 2 "[]" 1]
  by (simp add: scenario_tree_def)

text \<open>
  Claim C1 as written says that only \<open>B\<close> goes and \<open>{A, C}\<close> stays. The loop itself, run on
  the scenario: \<open>C\<close>, whose value 2 is not below the threshold 2, is gone with \<open>B\<close>.
\<close>

theorem pruneTreeByMinValue_scenario_counterexample:
  "\<not> nvalue (HNode node_C 2 []) < 2 \<and>
   map (ident \<circ> data) (descendants (pruneTreeByMinValue scenario_tree 2)) = [''A'']"
  by (simp add: pruneTreeByMinValue_def eachBefore_def has_parent_def scenario_defs descendants_def)

subsection \<open>C2: values and label counts add up\<close>

text \<open>
  Claim C2. For every tree the Tree Builder builds (\<open>buildTree\<close>, and \<open>getData\<close> on top of
  it), every node's value is the sum of \<open>items.length\<close> over the leaves below it, the
  internal nodes contributing 0: the value is the sum of \<open>items.length\<close> over all nodes
  below, and in the trees of the data model a node with children carries no items. The
  label counts of every internal node (a node without items; it has children) are the
  key-wise sum of the label counts of its children, a key that a child lacks counting 0,
  so that its keys are the union of the children's keys.
\<close>

theorem aggregation_correct:
  assumes "buildTree nodes = Inr t \<or> getData labels nodes = Inr t"
    and "n \<in> set (descendants t)"
  shows "nvalue n = (\<Sum>m\<leftarrow>descendants n. real (own_count (data m))) \<and>
         ((\<forall>m\<in>set (descendants n). children m \<noteq> [] \<longrightarrow> items (data m) = None) \<longrightarrow>
            nvalue n = (\<Sum>l\<leftarrow>leaves n. real (own_count (data l)))) \<and>
         (getData labels nodes = Inr t \<longrightarrow> items (data n) = None \<longrightarrow>
            children n \<noteq> [] \<and>
            (\<forall>k. count_of (labelCount (data n)) k = (\<Sum>c\<leftarrow>children n. count_of (labelCount (data c)) k)) \<and>
            fst ` set (labelCount (data n)) = (\<Union>c\<in>set (children n). fst ` set (labelCount (data c))))"
proof (intro conjI impI)
  from assms(2) have n: "n \<in> subtrees t" by (simp add: set_descendants)
  from assms(1)
  have summed: "\<forall>m\<in>subtrees t. nvalue m = real (own_count (data m)) + sum_list (map nvalue (children m))"
  proof
    assume "buildTree nodes = Inr t"
    then obtain s where "t = sum_tree (\<lambda>d. real (own_count d)) s"
      by (auto simp: buildTree_def split: sum.splits)
    then show ?thesis using sum_tree_summed[of _ "\<lambda>d. real (own_count d)" s] by simp
  next
    assume "getData labels nodes = Inr t"
    then obtain b where b: "buildTree nodes = Inr b" "label_tree (labelMap_of labels) b = Some t"
      by (auto simp: getData_def split: sum.splits option.splits)
    from b(1) obtain s where "b = sum_tree (\<lambda>d. real (own_count d)) s"
      by (auto simp: buildTree_def split: sum.splits)
    then have "\<forall>m\<in>subtrees b. nvalue m = real (own_count (data m)) + sum_list (map nvalue (children m))"
      using sum_tree_summed[of _ "\<lambda>d. real (own_count d)" s] by simp
    with label_tree_summed[OF b(2)] show ?thesis by blast
  qed
  have below: "\<forall>m\<in>subtrees n. nvalue m = real (own_count (data m)) + sum_list (map nvalue (children m))"
    using summed n by (auto dest: subtrees_trans)
  from summed_total[OF below]
  show "nvalue n = (\<Sum>m\<leftarrow>descendants n. real (own_count (data m)))"
    by (simp add: sum_descendants)
  {
    assume "\<forall>m\<in>set (descendants n). children m \<noteq> [] \<longrightarrow> items (data m) = None"
    then have "\<forall>m\<in>subtrees n. children m \<noteq> [] \<longrightarrow> real (own_count (data m)) = 0"
      by (auto simp: set_descendants own_count_def)
    from leaf_sum[OF below this]
    show "nvalue n = (\<Sum>l\<leftarrow>leaves n. real (own_count (data l)))" .
  }
  {
    assume g: "getData labels nodes = Inr t" and none: "items (data n) = None"
    from g obtain b where b: "label_tree (labelMap_of labels) b = Some t"
      by (auto simp: getData_def split: sum.splits option.splits)
    from label_tree_nodes[OF b n] obtain n0 where n0: "label_tree (labelMap_of labels) n0 = Some n"
      by auto
    from none label_tree_items[OF n0] have "items (data n0) = None" by simp
    from label_tree_internal[OF n0 this]
    have ne: "children n \<noteq> []"
      and lc: "labelCount (data n) = fold (\<lambda>cur acc. merge acc (labelCount (data cur))) (children n) []"
      by simp_all
    show "children n \<noteq> []" by (rule ne)
    show "\<forall>k. count_of (labelCount (data n)) k = (\<Sum>c\<leftarrow>children n. count_of (labelCount (data c)) k)"
      unfolding lc count_of_fold_merge by (simp add: count_of_def)
    show "fst ` set (labelCount (data n)) = (\<Union>c\<in>set (children n). fst ` set (labelCount (data c)))"
      unfolding lc keys_fold_merge by simp
  }
qed

text \<open>At the root of the labelled example tree: value 3, and two reds from its two children.\<close>

theorem aggregation_correct_witness:
  "getData labels_csv uneven_flat = Inr labelled_tree \<and>
   nvalue labelled_tree = 3 \<and> (\<Sum>l\<leftarrow>leaves labelled_tree. real (own_count (data l))) = 3 \<and>
   count_of (labelCount (data labelled_tree)) ''red'' = 2 \<and>
   (\<Sum>c\<leftarrow>children labelled_tree. count_of (labelCount (data c)) ''red'') = 2 \<and>
   fst ` set (labelCount (data labelled_tree)) = {''red'', ''blue''}"
  using aggregation_correct[of uneven_flat labelled_tree labels_csv labelled_tree] getData_uneven
  by (simp add: labelled_tree_def mk_def descendants_def own_count_def count_of_def cell_of_def)

subsection \<open>C3: label counts of a leaf\<close>

text \<open>
  Claim C3, as amended. For every leaf node (a node with items) the label counts are
  produced by counting, for each item, the label assigned to its barcode in the label
  map; an item whose barcode is absent from the label map is not skipped but counted
  under the key \<open>undefined\<close>, so the counts may hold a key that is no known label. For the
  label file with the rows \<open>1,red\<close> and \<open>2,blue\<close> (header ignored) and a leaf whose items
  have the barcodes 1 and 2, the leaf's label counts are \<open>{red: 1, blue: 1}\<close>.
\<close>

theorem leaf_labelCount_counts_every_item:
  "(label_tree labelMap (HNode d v cs) = Some n' \<longrightarrow> items d = Some its \<longrightarrow>
      (\<forall>k. count_of (labelCount (data n')) k =
         length (filter (\<lambda>c. (case map_of labelMap (unCell (barcode c)) of
                                  Some (Some l) \<Rightarrow> l | _ \<Rightarrow> ''undefined'') = k) its)) \<and>
      length (filter (\<lambda>c. map_of labelMap (unCell (barcode c)) = None) its)
        \<le> count_of (labelCount (data n')) ''undefined'') \<and>
   getData labels_csv [leaf12] = Inr (HNode (leaf12\<lparr>labelCount := [(''red'', 1), (''blue'', 1)]\<rparr>) 2 [])"
proof (intro conjI impI allI)
  fix k
  assume a: "label_tree labelMap (HNode d v cs) = Some n'" "items d = Some its"
  from label_tree_leaf[OF a(1)] a(2)
  have lc: "labelCount (data n') = leaf_labelCount labelMap its" by simp
  show "count_of (labelCount (data n')) k =
         length (filter (\<lambda>c. (case map_of labelMap (unCell (barcode c)) of
                                  Some (Some l) \<Rightarrow> l | _ \<Rightarrow> ''undefined'') = k) its)"
    unfolding lc leaf_labelCount_count label_key_def ..
  have "length (filter (\<lambda>c. map_of labelMap (unCell (barcode c)) = None) its)
          \<le> length (filter (\<lambda>c. label_key labelMap c = ''undefined'') its)"
  proof (induction its)
    case Nil
    then show ?case by simp
  next
    case (Cons c its)
    then show ?case by (auto simp: label_key_def)
  qed
  then show "length (filter (\<lambda>c. map_of labelMap (unCell (barcode c)) = None) its)
        \<le> count_of (labelCount (data n')) ''undefined''"
    unfolding lc leaf_labelCount_count .
next
  show "getData labels_csv [leaf12] = Inr (HNode (leaf12\<lparr>labelCount := [(''red'', 1), (''blue'', 1)]\<rparr>) 2 [])"
    by (rule getData_leaf12)
qed

text \<open>At the leaf with the barcodes 1, 3 and 2: one item has no label, and \<open>undefined\<close> counts 1.\<close>

theorem leaf_labelCount_witness:
  "label_tree (labelMap_of labels_csv) (HNode leaf132 3 []) =
     Some (HNode (leaf132\<lparr>labelCount := [(''red'', 1), (''undefined'', 1), (''blue'', 1)]\<rparr>) 3 []) \<and>
   items leaf132 = Some [cell_of ''1'', cell_of ''3'', cell_of ''2''] \<and>
   count_of [(''red'', 1), (''undefined'', 1), (''blue'', 1)] ''undefined'' = 1 \<and>
   length (filter (\<lambda>c. map_of (labelMap_of labels_csv) (unCell (barcode c)) = None)
             [cell_of ''1'', cell_of ''3'', cell_of ''2'']) = 1"
  using leaf_labelCount_counts_every_item[of "labelMap_of labels_csv" leaf132 3 "[]"
      "HNode (leaf132\<lparr>labelCount := [(''red'', 1), (''undefined'', 1), (''blue'', 1)]\<rparr>) 3 []"
      "[cell_of ''1'', cell_of ''3'', cell_of ''2'']"]
  unfolding labelMap_csv
  by (simp add: leaf132_def mk_def cell_of_def leaf_labelCount_def label_key_def count_of_def)

text \<open>
  Claim C3 as written says the item without a label is skipped and only known labels
  are counted. \<open>getData\<close> on the leaf with the barcodes 1, 3 and 2: the file has no row
  for 3, and the counts hold \<open>undefined: 1\<close>.
\<close>

theorem getData_unmapped_barcode_counterexample:
  "map_of (labelMap_of labels_csv) ''3'' = None \<and>
   getData labels_csv [leaf132] =
     Inr (HNode (leaf132\<lparr>labelCount := [(''red'', 1), (''undefined'', 1), (''blue'', 1)]\<rparr>) 3 [])"
  unfolding getData_def labelMap_csv
  by (simp add: buildTree_def stratify_def leaf132_def mk_def node_key_def
      parent_key_def kids_of_def own_count_def js_sort_def cell_of_def leaf_labelCount_def
      label_key_def count_of_def)

subsection \<open>C4: the category key of an item\<close>




subsection \<open>C5: pruning by minimum value twice\<close>

text \<open>
  Claim C5. For every tree and every threshold \<open>t\<close>, pruning the result of
  \<open>pruneTreeByMinValue(tree, t)\<close> again with \<open>t\<close> gives a tree with as many descendants as
  the first pruning did.
\<close>

theorem pruneTreeByMinValue_idempotent:
  "length (descendants (pruneTreeByMinValue (pruneTreeByMinValue tree t) t)) =
   length (descendants (pruneTreeByMinValue tree t))"
  by (simp add: pruneTreeByMinValue_cut cut_small_idem)

theorem pruneTreeByMinValue_idempotent_witness:
  "length (descendants (pruneTreeByMinValue (pruneTreeByMinValue scenario_tree 2) 2)) = 1 \<and>
   length (descendants (pruneTreeByMinValue scenario_tree 2)) = 1"
  using pruneTreeByMinValue_idempotent[of scenario_tree 2]
  by (simp add: pruneTreeByMinValue_cut scenario_defs length_descendants)

subsection \<open>C6: a larger threshold prunes more\<close>

text \<open>
  Claim C6. For every tree and thresholds \<open>t1 < t2\<close>, the nodes of
  \<open>pruneTreeByMinValue(tree, t2)\<close> are among the nodes of \<open>pruneTreeByMinValue(tree, t1)\<close>,
  as positions with their payloads and as the payloads of \<open>descendants()\<close>, so the number
  of descendants does not grow with the threshold.
\<close>

theorem pruneTreeByMinValue_monotone:
  "t1 < t2 \<Longrightarrow>
     located [] (pruneTreeByMinValue tree t2) \<subseteq> located [] (pruneTreeByMinValue tree t1) \<and>
     set (map data (descendants (pruneTreeByMinValue tree t2)))
       \<subseteq> set (map data (descendants (pruneTreeByMinValue tree t1))) \<and>
     length (descendants (pruneTreeByMinValue tree t2))
       \<le> length (descendants (pruneTreeByMinValue tree t1))"
  by (simp add: pruneTreeByMinValue_cut cut_small_located_mono set_descendants data_subtrees
      cut_small_payloads_mono length_descendants cut_small_nsize_mono)

theorem pruneTreeByMinValue_monotone_witness:
  "(1::real) < 2 \<and>
   length (descendants (pruneTreeByMinValue scenario_tree 2)) = 1 \<and>
   length (descendants (pruneTreeByMinValue scenario_tree 1)) = 3 \<and>
   located [] (pruneTreeByMinValue scenario_tree 2) \<subseteq> located [] (pruneTreeByMinValue scenario_tree 1)"
  using pruneTreeByMinValue_monotone[of 1 2 scenario_tree]
  by (simp add: pruneTreeByMinValue_cut scenario_defs length_descendants)

subsection \<open>C7: the source tree after an operation\<close>

text \<open>
  Claim C7 says that every pruning operation, \<open>setRootNode\<close> included, leaves the tree it
  was given as it was, the stored \<open>parentId\<close> of each node included. The four pruners and
  \<open>collapseNode\<close> above cut children of their own copy and write no payload. \<open>setRootNode\<close>
  writes \<open>parentId\<close> through the payload object that its copy shares with the source:
  on the scenario tree, \<open>setRootNode(tree, 'B')\<close> returns the node \<open>B\<close> and a store in
  which the source's node \<open>B\<close> has lost its \<open>parentId\<close>, so that the source tree no longer
  reads as it did.
\<close>

theorem setRootNode_mutates_source:
  "map_hnode scenario_store scenario_refs = scenario_tree \<and>
   setRootNode scenario_store scenario_refs ''B'' =
     Inr (scenario_store(1 := node_B\<lparr>parentId := None\<rparr>), HNode 1 1 []) \<and>
   parentId (scenario_store 1) = Some ''A'' \<and>
   parentId ((scenario_store(1 := node_B\<lparr>parentId := None\<rparr>)) 1) = None \<and>
   map_hnode (scenario_store(1 := node_B\<lparr>parentId := None\<rparr>)) scenario_refs \<noteq> scenario_tree"
  by (simp add: setRootNode_def find_node_def descendants_def scenario_store_def scenario_refs_def
      scenario_defs)

subsection \<open>C8: the order of siblings\<close>

text \<open>
  Claim C8, as amended. For every flattened node list that \<open>buildTree\<close> accepts, the
  children of every node of the tree are ordered by descending own item count
  (\<open>items.length\<close> of the child itself, 0 when its items are null, whatever its subtree
  holds), and siblings with the same own item count keep the order they have in the
  flat list.
\<close>

theorem buildTree_sibling_order:
  assumes "buildTree nodes = Inr t" and "n \<in> set (descendants t)"
  shows "sorted_wrt (\<lambda>a b. own_count (data a) \<ge> own_count (data b)) (children n) \<and>
         (\<forall>k. filter (\<lambda>d. own_count d = k) (map data (children n)) =
              filter (\<lambda>d. parent_key d = Some (ident (data n)) \<and> own_count d = k) nodes)"
proof -
  from assms(2) have n: "n \<in> subtrees t" by (simp add: set_descendants)
  have ch: "map data (children n) = js_sort compare_items (kids_of nodes (data n))"
    by (rule buildTree_children[OF assms(1) n])
  have "sorted_wrt (\<lambda>a b. own_count a \<ge> own_count b) (map data (children n))"
    unfolding ch by (rule js_sort_sorted)
  then have "sorted_wrt (\<lambda>a b. own_count (data a) \<ge> own_count (data b)) (children n)"
    by (simp add: sorted_wrt_map)
  moreover have "filter (\<lambda>d. own_count d = k) (map data (children n)) =
              filter (\<lambda>d. parent_key d = Some (ident (data n)) \<and> own_count d = k) nodes" for k
    unfolding ch js_sort_stable kids_of_filter by (simp add: conj_commute)
  ultimately show ?thesis by blast
qed

text \<open>At the root of the uneven example: the leaf \<open>L\<close> (one item) before the node \<open>I\<close> (none).\<close>

theorem buildTree_sibling_order_witness:
  "buildTree uneven_flat = Inr uneven_tree \<and> uneven_tree \<in> set (descendants uneven_tree) \<and>
   sorted_wrt (\<lambda>a b. own_count (data a) \<ge> own_count (data b)) (children uneven_tree) \<and>
   filter (\<lambda>d. own_count d = 0) (map data (children uneven_tree)) = [mk ''I'' (Some ''R'') None (Some 1)]"
  using buildTree_sibling_order[OF buildTree_uneven, of uneven_tree]
  by (simp add: buildTree_uneven)
    (simp add: uneven_tree_def uneven_flat_def mk_def descendants_def own_count_def parent_key_def)

text \<open>
  Claim C8 as written orders siblings by descending subtree item count. In the tree
  built from the uneven example the root's children are \<open>L\<close>, then \<open>I\<close>, with the subtree
  item counts 1, then 2.
\<close>

theorem buildTree_sibling_order_counterexample:
  "buildTree uneven_flat = Inr uneven_tree \<and>
   map (ident \<circ> data) (children uneven_tree) = [''L'', ''I''] \<and>
   map nvalue (children uneven_tree) = [1, 2]"
  by (simp add: buildTree_uneven) (simp add: uneven_tree_def mk_def)

subsection \<open>C9: pruning by minimum distance\<close>

text \<open>
  Claim C9. For every tree and every threshold \<open>t\<close> (any \<open>t \<ge> 0\<close>, with \<open>t = 0\<close> among them),
  \<open>pruneTreeByMinDistance\<close> keeps every node it visits, whatever its distance: the node
  stays, and when its distance is missing, zero or below \<open>t\<close> its children are removed
  and it becomes a leaf; otherwise all its children stay, pruned by the same rule.
  Consequently pruning with threshold 0 changes every tree that has an internal node
  whose distance is missing or zero.
\<close>

theorem pruneTreeByMinDistance_keeps_node_cuts_children:
  "pruneTreeByMinDistance (HNode d v cs) t =
     HNode d v (if distance d = None \<or> distance d = Some 0 \<or> (\<exists>x. distance d = Some x \<and> x < t)
                then [] else map (\<lambda>c. pruneTreeByMinDistance c t) cs)
   \<and> ((\<exists>n\<in>set (descendants tree). children n \<noteq> [] \<and>
          (distance (data n) = None \<or> distance (data n) = Some 0))
       \<longrightarrow> pruneTreeByMinDistance tree 0 \<noteq> tree)"
proof
  have eq: "(\<lambda>c. pruneTreeByMinDistance c t) = cut_near t"
    by (rule ext) (rule pruneTreeByMinDistance_cut)
  have "below_distance (distance d) t \<longleftrightarrow>
        distance d = None \<or> distance d = Some 0 \<or> (\<exists>x. distance d = Some x \<and> x < t)"
    by (cases "distance d") auto
  then show "pruneTreeByMinDistance (HNode d v cs) t =
     HNode d v (if distance d = None \<or> distance d = Some 0 \<or> (\<exists>x. distance d = Some x \<and> x < t)
                then [] else map (\<lambda>c. pruneTreeByMinDistance c t) cs)"
    unfolding eq by (simp add: pruneTreeByMinDistance_cut)
  show "(\<exists>n\<in>set (descendants tree). children n \<noteq> [] \<and>
          (distance (data n) = None \<or> distance (data n) = Some 0))
       \<longrightarrow> pruneTreeByMinDistance tree 0 \<noteq> tree"
  proof (intro impI notI)
    assume ex: "\<exists>n\<in>set (descendants tree). children n \<noteq> [] \<and>
          (distance (data n) = None \<or> distance (data n) = Some 0)"
      and same: "pruneTreeByMinDistance tree 0 = tree"
    from ex obtain n where n: "n \<in> subtrees tree" "children n \<noteq> []"
      "distance (data n) = None \<or> distance (data n) = Some 0"
      by (auto simp: set_descendants)
    from same have "cut_near 0 tree = tree" by (simp add: pruneTreeByMinDistance_cut)
    from cut_near_fixed[OF this n(1,2)] n(3) show False by auto
  qed
qed

text \<open>
  On the scenario tree the root has no distance, so threshold 0 leaves the root alone.
  With threshold 2, a node of distance 3 keeps its child and a node of distance 1 loses
  it.
\<close>

theorem pruneTreeByMinDistance_witness:
  "pruneTreeByMinDistance scenario_tree 0 = HNode node_A 3 [] \<and>
   pruneTreeByMinDistance scenario_tree 0 \<noteq> scenario_tree \<and>
   pruneTreeByMinDistance (HNode node_C 2 [HNode node_B 1 []]) 2 = HNode node_C 2 [HNode node_B 1 []] \<and>
   pruneTreeByMinDistance (HNode node_B 1 [HNode node_C 2 []]) 2 = HNode node_B 1 []"
  using pruneTreeByMinDistance_keeps_node_cuts_children[of node_A 3 "[HNode node_B 1 [], HNode node_C 2 []]" 0 scenario_tree]
    pruneTreeByMinDistance_keeps_node_cuts_children[of node_C 2 "[HNode node_B 1 []]" 2 scenario_tree]
    pruneTreeByMinDistance_keeps_node_cuts_children[of node_B 1 "[HNode node_C 2 []]" 2 scenario_tree]
    pruneTreeByMinDistance_keeps_node_cuts_children[of node_B 1 "[]" 2 scenario_tree]
  by (simp add: scenario_defs descendants_def)

subsection \<open>C10: the single-feature average reads two children\<close>

text \<open>
  Claim C10. The single-feature \<open>updateFeatureCounts\<close> is only defined on trees in which
  every internal node (every node without items) has at least two children: it returns
  a tree exactly when that holds and every item has its \<open>_featureCounts\<close>. On an
  internal node with one child it fails. For an internal node with two or more
  children the quantity is the sum of the quantities of the first two children, divided
  by the number of descendants less one: no quantity of a third or later child enters.
\<close>

theorem updateFeatureCounts_reads_two_children:
  "((\<exists>t'. updateFeatureCounts feature t = Some t') \<longleftrightarrow>
      (\<forall>n\<in>set (descendants t).
         (items (data n) = None \<longrightarrow> 2 \<le> length (children n)) \<and>
         (\<forall>its. items (data n) = Some its \<longrightarrow> (\<forall>c\<in>set its. featureCounts (barcode c) \<noteq> None)))) \<and>
   (items d = None \<longrightarrow> updateFeatureCounts feature (HNode d v [c]) = None) \<and>
   (items d = None \<longrightarrow> updateFeatureCounts feature (HNode d v (c0 # c1 # rest)) = Some n' \<longrightarrow>
      (\<exists>c0' c1' a0 a1.
         updateFeatureCounts feature c0 = Some c0' \<and> updateFeatureCounts feature c1 = Some c1' \<and>
         map_of (featureCount (data c0')) feature = Some a0 \<and>
         map_of (featureCount (data c1')) feature = Some a1 \<and>
         featureCount (data n') =
           [(feature, \<lparr>scaleKey = feature,
               quantity = (quantity a0 + quantity a1) /
                          (real (length (descendants (HNode d v (c0 # c1 # rest)))) - 1)\<rparr>)]))"
proof (intro conjI impI)
  show "(\<exists>t'. updateFeatureCounts feature t = Some t') \<longleftrightarrow>
      (\<forall>n\<in>set (descendants t).
         (items (data n) = None \<longrightarrow> 2 \<le> length (children n)) \<and>
         (\<forall>its. items (data n) = Some its \<longrightarrow> (\<forall>c\<in>set its. featureCounts (barcode c) \<noteq> None)))"
    unfolding set_descendants
    using updateFeatureCounts_needs[of feature t] updateFeatureCounts_defined[of t feature]
    by blast
next
  assume "items d = None"
  then show "updateFeatureCounts feature (HNode d v [c]) = None"
    by (simp split: option.splits)
next
  assume d: "items d = None" and r: "updateFeatureCounts feature (HNode d v (c0 # c1 # rest)) = Some n'"
  let ?n = "HNode d v (c0 # c1 # rest)"
  from r obtain cs' where cs': "those (map (updateFeatureCounts feature) (c0 # c1 # rest)) = Some cs'"
    by (auto split: option.splits)
  from those_map_all2[OF cs'] obtain c0' c1' rest' where l: "cs' = c0' # c1' # rest'"
    and u: "updateFeatureCounts feature c0 = Some c0'" "updateFeatureCounts feature c1 = Some c1'"
    by (auto simp: list_all2_Cons1)
  from u obtain a0 a1 where a: "featureCount (data c0') = [(feature, a0)]"
    "featureCount (data c1') = [(feature, a1)]"
    using updateFeatureCounts_sets_feature by blast
  have "nsize n' = nsize ?n" by (rule updateFeatureCounts_nsize[OF r])
  moreover have "nsize n' = nsize (HNode d v cs')"
    using r d cs' l a by (auto simp del: those.simps)
  ultimately have size: "length (descendants (HNode d v cs')) = length (descendants ?n)"
    by (simp only: length_descendants)
  have "featureCount (data n') =
           [(feature, \<lparr>scaleKey = feature,
               quantity = (quantity a0 + quantity a1) / (real (length (descendants (HNode d v cs'))) - 1)\<rparr>)]"
    using r d cs' l a by (auto simp del: those.simps)
  with u a size show "\<exists>c0' c1' a0 a1.
         updateFeatureCounts feature c0 = Some c0' \<and> updateFeatureCounts feature c1 = Some c1' \<and>
         map_of (featureCount (data c0')) feature = Some a0 \<and>
         map_of (featureCount (data c1')) feature = Some a1 \<and>
         featureCount (data n') =
           [(feature, \<lparr>scaleKey = feature,
               quantity = (quantity a0 + quantity a1) /
                          (real (length (descendants ?n)) - 1)\<rparr>)]"
    by (intro exI[of _ c0'] exI[of _ c1'] exI[of _ a0] exI[of _ a1]) simp
qed

text \<open>
  A root over one leaf fails. A root over three leaves holding 2, 4 and 100 gets
  \<open>(2 + 4) / (4 - 1) = 2\<close>.
\<close>

theorem updateFeatureCounts_reads_two_children_witness:
  "items (mk ''R'' None None None) = None \<and>
   updateFeatureCounts ''F'' (HNode (mk ''R'' None None None) 1 [fleaf ''a'' 2]) = None \<and>
   map_option (map (quantity \<circ> snd) \<circ> featureCount \<circ> data) (updateFeatureCounts ''F'' three_kids) = Some [2] \<and>
   length (descendants three_kids) = 4"
  using updateFeatureCounts_reads_two_children[of "''F''" three_kids "mk ''R'' None None None" 1
      "fleaf ''a'' 2" "fleaf ''a'' 2" "fleaf ''b'' 4" "[fleaf ''c'' 100]"
      "the (updateFeatureCounts ''F'' three_kids)"]
  unfolding three_kids_result
  by (simp add: three_kids_def fleaf_def mk_def descendants_def feature_total_def add_count_def)

end
